theory Spec2Isabelle
  imports Main "HOL-Library.Word"
begin

unbundle bit_operations_syntax

section \<open>128-bit keys\<close>

text \<open>
  Modelled from the spec: the type \<open>uint128\<close> and its methods (\<open>leftShift\<close>,
  \<open>rightShift\<close>, \<open>and\<close>, \<open>xor\<close>, \<open>complement\<close>, \<open>leadingZeros\<close>) are used by
  \<open>node.go\<close> but declared in a file that is not among the sources. The spec describes
  them as the operations of an unsigned integer of exactly W bits with bit 0 the most
  significant one: bitwise AND, XOR, NOT, logical shifts and the count of leading zeros.
  A value \<open>uint128{hi, lo}\<close> is the 128-bit number whose upper 64 bits are \<open>hi\<close>.
\<close>

type_synonym uint128 = "128 word"

definition uint128 :: "64 word \<Rightarrow> 64 word \<Rightarrow> uint128" where
  "uint128 hi lo = word_cat hi lo"

definition leftShift :: "uint128 \<Rightarrow> nat \<Rightarrow> uint128" where
  "leftShift x n = push_bit n x"

definition rightShift :: "uint128 \<Rightarrow> nat \<Rightarrow> uint128" where
  "rightShift x n = drop_bit n x"

definition and128 :: "uint128 \<Rightarrow> uint128 \<Rightarrow> uint128" where
  "and128 x y = x AND y"

definition xor128 :: "uint128 \<Rightarrow> uint128 \<Rightarrow> uint128" where
  "xor128 x y = x XOR y"

definition complement :: "uint128 \<Rightarrow> uint128" where
  "complement x = NOT x"

text \<open>\<open>clz n x\<close> counts the zero bits of \<open>x\<close> from bit \<open>n - 1\<close> downwards, stopping at
  the first one bit.\<close>

fun clz :: "nat \<Rightarrow> uint128 \<Rightarrow> nat" where
  "clz 0 x = 0"
| "clz (Suc n) x = (if bit x n then 0 else Suc (clz n x))"

definition leadingZeros :: "uint128 \<Rightarrow> nat" where
  "leadingZeros x = clz 128 x"

section \<open>Prefixes\<close>

text \<open>
  The struct \<open>Prefix\<close> is declared outside \<open>node.go\<close>; the literal
  \<open>Prefix{addr: Address{ui: ...}, length: common}\<close> in \<open>insert\<close> gives its fields: an
  address holding a \<open>uint128\<close> and a \<open>uint32\<close> length. Go's \<open>==\<close> on the struct
  compares both fields in full, which is HOL equality on the record.
\<close>

record Address =
  ui :: uint128

record Prefix =
  addr :: Address
  length_p :: "32 word"

section \<open>Containership\<close>

definition intMin :: "int \<Rightarrow> int \<Rightarrow> int" where
  "intMin a b = (if a < b then a else b)"

definition intMax :: "int \<Rightarrow> int \<Rightarrow> int" where
  "intMax a b = (if a < b then b else a)"

text \<open>\<open>contains\<close> returns \<open>(matches, exact, common, child)\<close>; the named results of the
  Go function start as \<open>false\<close>, \<open>false\<close>, \<open>0\<close>, \<open>0\<close>.\<close>

definition contains :: "Prefix \<Rightarrow> Prefix \<Rightarrow> bool \<times> bool \<times> 32 word \<times> nat" where
  "contains shorter longer =
    (let mask = leftShift (uint128 0xffffffffffffffff 0xffffffffffffffff)
                  (unat (128 - length_p shorter));
         matches = (and128 (ui (addr shorter)) mask = and128 (ui (addr longer)) mask);
         exact = (matches \<and> length_p shorter = length_p longer);
         common = (if matches then length_p shorter
                   else of_nat (leadingZeros (xor128 (ui (addr shorter)) (ui (addr longer)))));
         child = (if \<not> exact
                  then (let pivotMask = rightShift (uint128 0x8000000000000000 0) (unat common)
                        in if and128 (ui (addr longer)) pivotMask \<noteq> uint128 0 0
                           then 1 else 0)
                  else 0)
     in (matches, exact, common, child))"

datatype comparison = compareSame | compareContains | compareIsContained | compareDisjoint

text \<open>\<open>compare\<close> returns \<open>(result, reversed, common, child)\<close>.\<close>

definition compare :: "Prefix \<Rightarrow> Prefix \<Rightarrow> comparison \<times> bool \<times> 32 word \<times> nat" where
  "compare a b =
    (let reversed = (length_p b < length_p a);
         (aMatch, bMatch, common, child) =
            (if reversed
             then (case contains b a of (bM, aM, c, ch) \<Rightarrow> (aM, bM, c, ch))
             else contains a b);
         result = (if aMatch \<and> bMatch then compareSame
                   else if aMatch \<and> \<not> bMatch then compareContains
                   else if \<not> aMatch \<and> bMatch then compareIsContained
                   else compareDisjoint)
     in (result, reversed, common, child))"

section \<open>Trie nodes\<close>

text \<open>
  A \<open>*trieNode\<close> is either nil or the address of a node. Nodes are never changed once
  they are linked into a trie (every \<open>mutate\<close> acts on a node allocated in the same
  call), so a pointer is modelled as the node it points to together with its address
  \<open>ptr\<close>; comparing two pointers compares the addresses.

  \<open>Data\<close> is an \<open>interface{}\<close>: \<open>None\<close> is the nil interface, \<open>Some v\<close> holds a
  value \<open>v\<close> with its dynamic type. \<open>Comparable x\<close> is a value of a comparable dynamic
  type, on which \<open>==\<close> is equality (\<open>x\<close> stands for the type and the value together);
  \<open>Uncomparable t x\<close> is a value of the uncomparable dynamic type number \<open>t\<close> (a slice,
  a map, a function). Go's \<open>==\<close> on two interface values with the same uncomparable
  dynamic type is a run-time panic; with different dynamic types it is false. Floating
  point values that are not equal to themselves are left out.
\<close>

datatype 'v iface = Comparable 'v | Uncomparable nat 'v

text \<open>A Go panic: the call of a nil function value, the explicit
  \<open>panic(fmt.Errorf("this error shouldn't happen: %w", err))\<close>, or the run-time error of
  comparing two values of an uncomparable type. A panicking call is \<open>Inl (p, a)\<close>, with
  the next free address \<open>a\<close> when the panic was raised.\<close>

datatype panic = NilFunc | ShouldntHappen string | UncomparableType

fun iface_eq :: "'v iface option \<Rightarrow> 'v iface option \<Rightarrow> panic + bool" where
  "iface_eq None None = Inr True"
| "iface_eq (Some (Comparable x)) (Some (Comparable y)) = Inr (x = y)"
| "iface_eq (Some (Uncomparable t x)) (Some (Uncomparable t' y)) =
     (if t = t' then Inl UncomparableType else Inr False)"
| "iface_eq _ _ = Inr False"

datatype 'v trieNode =
    NilNode
  | TrieNode (ptr: nat) (Prefix: Prefix) (Data: "'v iface option") (size_n: "32 word")
      (h: "16 word") (isActive: bool) (child0: "'v trieNode") (child1: "'v trieNode")

text \<open>A comparator is a function supplied by the caller; the spec asks it to be pure and
  total.\<close>

type_synonym 'v comparator = "'v iface option \<Rightarrow> 'v iface option \<Rightarrow> bool"

fun ptr_eq :: "'v trieNode \<Rightarrow> 'v trieNode \<Rightarrow> bool" where
  "ptr_eq NilNode NilNode = True"
| "ptr_eq (TrieNode a k d s hh act l r) (TrieNode a' k' d' s' hh' act' l' r') = (a = a')"
| "ptr_eq _ _ = False"

text \<open>Field assignments \<open>n.f = v\<close> on a non-nil node.\<close>

fun set_ptr :: "nat \<Rightarrow> 'v trieNode \<Rightarrow> 'v trieNode" where
  "set_ptr a' (TrieNode a k d s hh act l r) = TrieNode a' k d s hh act l r"
| "set_ptr a' NilNode = NilNode"

fun set_Data :: "'v iface option \<Rightarrow> 'v trieNode \<Rightarrow> 'v trieNode" where
  "set_Data d' (TrieNode a k d s hh act l r) = TrieNode a k d' s hh act l r"
| "set_Data d' NilNode = NilNode"

fun set_size :: "32 word \<Rightarrow> 'v trieNode \<Rightarrow> 'v trieNode" where
  "set_size s' (TrieNode a k d s hh act l r) = TrieNode a k d s' hh act l r"
| "set_size s' NilNode = NilNode"

fun set_h :: "16 word \<Rightarrow> 'v trieNode \<Rightarrow> 'v trieNode" where
  "set_h hh' (TrieNode a k d s hh act l r) = TrieNode a k d s hh' act l r"
| "set_h hh' NilNode = NilNode"

fun set_isActive :: "bool \<Rightarrow> 'v trieNode \<Rightarrow> 'v trieNode" where
  "set_isActive act' (TrieNode a k d s hh act l r) = TrieNode a k d s hh act' l r"
| "set_isActive act' NilNode = NilNode"

fun set_children :: "'v trieNode \<Rightarrow> 'v trieNode \<Rightarrow> 'v trieNode \<Rightarrow> 'v trieNode" where
  "set_children l' r' (TrieNode a k d s hh act l r) = TrieNode a k d s hh act l' r'"
| "set_children l' r' NilNode = NilNode"

text \<open>\<open>children[child]\<close>, read and written; \<open>child\<close> is 0 or 1 wherever the code
  indexes.\<close>

fun get_child :: "'v trieNode \<Rightarrow> nat \<Rightarrow> 'v trieNode" where
  "get_child (TrieNode a k d s hh act l r) child = (if child = 0 then l else r)"
| "get_child NilNode child = NilNode"

fun set_child :: "nat \<Rightarrow> 'v trieNode \<Rightarrow> 'v trieNode \<Rightarrow> 'v trieNode" where
  "set_child child c (TrieNode a k d s hh act l r) =
     (if child = 0 then TrieNode a k d s hh act c r else TrieNode a k d s hh act l c)"
| "set_child child c NilNode = NilNode"

fun NumNodes :: "'v trieNode \<Rightarrow> int" where
  "NumNodes NilNode = 0"
| "NumNodes (TrieNode a k d s hh act l r) = uint s"

fun height :: "'v trieNode \<Rightarrow> int" where
  "height NilNode = 0"
| "height (TrieNode a k d s hh act l r) = uint hh"

fun active :: "'v trieNode \<Rightarrow> bool" where
  "active NilNode = False"
| "active (TrieNode a k d s hh act l r) = act"

fun IsEmpty :: "'v trieNode \<Rightarrow> bool" where
  "IsEmpty NilNode = True"
| "IsEmpty (TrieNode a k d s hh act l r) = (if act then False else IsEmpty l \<and> IsEmpty r)"

text \<open>\<open>mutate\<close> applies the mutator to the node in place and refreshes the cached size
  and height; the model returns the node's new contents at the same address.\<close>

definition mutate :: "'v trieNode \<Rightarrow> ('v trieNode \<Rightarrow> 'v trieNode) \<Rightarrow> 'v trieNode" where
  "mutate me mutator =
    (if me = NilNode then NilNode
     else let me1 = mutator me;
              numNodes = NumNodes (child0 me1) + NumNodes (child1 me1);
              height' = 1 + intMax (height (child0 me1)) (height (child1 me1));
              me2 = set_h (word_of_int height') (set_size (word_of_int numNodes) me1)
          in if isActive me2 then set_size (size_n me2 + 1) me2 else me2)"

text \<open>\<open>*mutated == *me\<close>: the two structs field by field in the order of the
  declaration, stopping at the first difference, the children as pointers. Comparing
  the \<open>Data\<close> fields can panic.\<close>

fun struct_eq :: "'v trieNode \<Rightarrow> 'v trieNode \<Rightarrow> panic + bool" where
  "struct_eq (TrieNode a k d s hh act l r) (TrieNode a' k' d' s' hh' act' l' r') =
     (if k \<noteq> k' then Inr False
      else case iface_eq d d' of
             Inl pn \<Rightarrow> Inl pn
           | Inr same \<Rightarrow>
               Inr (same \<and> s = s' \<and> hh = hh' \<and> act = act' \<and> ptr_eq l l' \<and> ptr_eq r r'))"
| "struct_eq _ _ = Inr False"

text \<open>\<open>copyMutate\<close> allocates the copy at the next free address \<open>a\<close> and returns the
  node together with the next free address, or panics in the comparison.\<close>

definition copyMutate ::
  "'v trieNode \<Rightarrow> ('v trieNode \<Rightarrow> 'v trieNode) \<Rightarrow> nat
     \<Rightarrow> panic \<times> nat + 'v trieNode \<times> nat" where
  "copyMutate me mutator a =
    (if me = NilNode then Inr (NilNode, a)
     else let doppelganger = set_ptr a me;
              mutated = mutate doppelganger mutator
          in case struct_eq mutated me of
               Inl pn \<Rightarrow> Inl (pn, Suc a)
             | Inr same \<Rightarrow> if same then Inr (me, Suc a) else Inr (mutated, Suc a))"

section \<open>Equal, Match and the validity check\<close>

fun Equal :: "'v trieNode \<Rightarrow> 'v trieNode \<Rightarrow> 'v comparator \<Rightarrow> bool" where
  "Equal NilNode other eq = (if ptr_eq NilNode other then True else False)"
| "Equal (TrieNode a k d s hh act l r) other eq =
    (if ptr_eq (TrieNode a k d s hh act l r) other then True
     else case other of
        NilNode \<Rightarrow> False
      | TrieNode a' k' d' s' hh' act' l' r' \<Rightarrow>
          if act \<noteq> act' then False
          else if k \<noteq> k' then False
          else if act \<and> \<not> eq d d' then False
          else if \<not> Equal l l' eq then False
          else if \<not> Equal r r' eq then False
          else True)"

fun Match :: "'v trieNode \<Rightarrow> Prefix \<Rightarrow> 'v trieNode" where
  "Match NilNode searchKey = NilNode"
| "Match (TrieNode a k d s hh act l r) searchKey =
    (if length_p searchKey < length_p k then NilNode
     else case contains k searchKey of (matches, exact, _, child) \<Rightarrow>
       if \<not> matches then NilNode
       else if \<not> exact \<and> Match (if child = 0 then l else r) searchKey \<noteq> NilNode
            then Match (if child = 0 then l else r) searchKey
       else if \<not> act then NilNode
       else TrieNode a k d s hh act l r)"

fun isValidLen :: "'v trieNode \<Rightarrow> 32 word \<Rightarrow> bool" where
  "isValidLen NilNode minLen = True"
| "isValidLen (TrieNode a k d s hh act left right) minLen =
    (if \<not> act \<and> (left = NilNode \<or> right = NilNode) then False
     else if (if act then s - 1 else s) \<noteq> word_of_int (NumNodes left + NumNodes right)
          then False
     else if hh \<noteq> 1 + word_of_int (intMax (height left) (height right)) then False
     else if length_p k < minLen then False
     else isValidLen left (length_p k + 1) \<and> isValidLen right (length_p k + 1))"

definition isValid :: "'v trieNode \<Rightarrow> bool" where
  "isValid me = isValidLen me 0"

section \<open>Insertion\<close>

text \<open>\<open>insertOpts\<close>; the comparator is nil when the literal leaves it out.\<close>

record 'v insertOpts =
  insert_opt :: bool
  update_opt :: bool
  eq_opt :: "'v comparator option"

definition call_eq ::
  "'v comparator option \<Rightarrow> 'v iface option \<Rightarrow> 'v iface option \<Rightarrow> panic + bool" where
  "call_eq f x y = (case f of None \<Rightarrow> Inl NilFunc | Some g \<Rightarrow> Inr (g x y))"

text \<open>
  \<open>insert\<close> returns \<open>(newHead, err)\<close>. It sets fields of \<open>node\<close>, which the caller
  allocated, in place; the model returns \<open>(newHead, err, node', a')\<close> with the contents
  \<open>node'\<close> of that node after the call and the next free address \<open>a'\<close>. An error is
  the message of \<open>fmt.Errorf\<close>. The comparison result is an enumeration, so the
  \<open>panic("unreachable code")\<close> after the switch has no branch.
\<close>

fun insert_node ::
  "'v trieNode \<Rightarrow> 'v trieNode \<Rightarrow> 'v insertOpts \<Rightarrow> nat
     \<Rightarrow> panic \<times> nat + 'v trieNode \<times> string option \<times> 'v trieNode \<times> nat" where
  "insert_node NilNode node opts a =
    (if \<not> insert_opt opts
     then Inr (NilNode, Some ''the key doesn't exist to update'', node, a)
     else (let node' = mutate node (\<lambda>n. set_isActive True n)
           in Inr (node', None, node', a)))"
| "insert_node (TrieNode p k d s hh act l r) node opts a =
    (case compare k (Prefix node) of (result, reversed, common, child) \<Rightarrow>
      (case result of
         compareSame \<Rightarrow>
           if act \<and> \<not> update_opt opts
           then Inr (TrieNode p k d s hh act l r,
                     Some ''a node with that key already exists'', node, a)
           else if \<not> act \<and> \<not> insert_opt opts
           then Inr (TrieNode p k d s hh act l r,
                     Some ''the key doesn't exist to update'', node, a)
           else (case (if act then call_eq (eq_opt opts) d (Data node) else Inr False) of
                   Inl pn \<Rightarrow> Inl (pn, a)
                 | Inr same \<Rightarrow>
                     (let node' = mutate node (\<lambda>n. set_isActive True (set_children l r
                                     (if same then set_Data d n else n)))
                      in Inr (node', None, node', a)))
       | compareContains \<Rightarrow>
           (case insert_node (if child = 0 then l else r) node opts a of
              Inl pn \<Rightarrow> Inl pn
            | Inr (newChild, err, node', a1) \<Rightarrow>
                if err \<noteq> None then Inr (TrieNode p k d s hh act l r, err, node', a1)
                else (case copyMutate (TrieNode p k d s hh act l r)
                             (\<lambda>n. set_child child newChild n) a1 of
                        Inl pn \<Rightarrow> Inl pn
                      | Inr (newNode, a2) \<Rightarrow> Inr (newNode, None, node', a2)))
       | compareIsContained \<Rightarrow>
           if \<not> insert_opt opts
           then Inr (TrieNode p k d s hh act l r,
                     Some ''the key doesn't exist to update'', node, a)
           else (let node' = mutate node (\<lambda>n. set_isActive True
                                (set_child child (TrieNode p k d s hh act l r) n))
                 in Inr (node', None, node', a))
       | compareDisjoint \<Rightarrow>
           (case insert_node NilNode node opts a of
              Inl pn \<Rightarrow> Inl pn
            | Inr (newChild, err, node', a1) \<Rightarrow>
                if err \<noteq> None then Inr (TrieNode p k d s hh act l r, err, node', a1)
                else (let children =
                            (if (child = 1) \<noteq> reversed
                             then (TrieNode p k d s hh act l r, newChild)
                             else (newChild, TrieNode p k d s hh act l r));
                          newNode = TrieNode a1
                            \<lparr>addr = \<lparr>ui = and128 (ui (addr k))
                                (complement (rightShift
                                   (uint128 0xffffffffffffffff 0xffffffffffffffff)
                                   (unat common)))\<rparr>,
                             length_p = common\<rparr>
                            None 0 0 False (fst children) (snd children)
                      in Inr (mutate newNode (\<lambda>n. n), None, node', Suc a1)))))"

text \<open>\<open>&trieNode{Prefix: key, Data: data}\<close> at address \<open>a\<close>.\<close>

definition new_node :: "nat \<Rightarrow> Prefix \<Rightarrow> 'v iface option \<Rightarrow> 'v trieNode" where
  "new_node a key data = TrieNode a key data 0 0 False NilNode NilNode"

definition Update ::
  "'v trieNode \<Rightarrow> Prefix \<Rightarrow> 'v iface option \<Rightarrow> 'v comparator option \<Rightarrow> nat
     \<Rightarrow> panic \<times> nat + 'v trieNode \<times> string option \<times> nat" where
  "Update me key data eq a =
     (case insert_node me (new_node a key data)
             \<lparr>insert_opt = False, update_opt = True, eq_opt = eq\<rparr> (Suc a) of
        Inl pn \<Rightarrow> Inl pn
      | Inr (newHead, err, _, a1) \<Rightarrow> Inr (newHead, err, a1))"

definition InsertOrUpdate ::
  "'v trieNode \<Rightarrow> Prefix \<Rightarrow> 'v iface option \<Rightarrow> 'v comparator option \<Rightarrow> nat
     \<Rightarrow> panic \<times> nat + 'v trieNode \<times> nat" where
  "InsertOrUpdate me key data eq a =
     (case insert_node me (new_node a key data)
             \<lparr>insert_opt = True, update_opt = True, eq_opt = eq\<rparr> (Suc a) of
        Inl pn \<Rightarrow> Inl pn
      | Inr (newHead, err, _, a1) \<Rightarrow>
          (case err of
             Some e \<Rightarrow> Inl (ShouldntHappen e, a1)
           | None \<Rightarrow> Inr (newHead, a1)))"

definition Insert ::
  "'v trieNode \<Rightarrow> Prefix \<Rightarrow> 'v iface option \<Rightarrow> nat
     \<Rightarrow> panic \<times> nat + 'v trieNode \<times> string option \<times> nat" where
  "Insert me key data a =
     (case insert_node me (new_node a key data)
             \<lparr>insert_opt = True, update_opt = False, eq_opt = None\<rparr> (Suc a) of
        Inl pn \<Rightarrow> Inl pn
      | Inr (newHead, err, _, a1) \<Rightarrow> Inr (newHead, err, a1))"

section \<open>Deletion\<close>

record deleteOpts =
  flatten :: bool

definition reverseChild :: "nat \<Rightarrow> nat" where
  "reverseChild child = (child + 1) mod 2"

fun del ::
  "'v trieNode \<Rightarrow> Prefix \<Rightarrow> deleteOpts \<Rightarrow> nat
     \<Rightarrow> panic \<times> nat + 'v trieNode \<times> string option \<times> nat" where
  "del NilNode key opts a =
    (if flatten opts then Inr (NilNode, None, a)
     else Inr (NilNode, Some ''cannot delete from a nil'', a))"
| "del (TrieNode p k d s hh act l r) key opts a =
    (case compare k key of (result, _, _, child) \<Rightarrow>
      (case result of
         compareSame \<Rightarrow>
           if flatten opts then Inr (NilNode, None, a)
           else if l = NilNode then Inr (r, None, a)
           else if r = NilNode then Inr (l, None, a)
           else (case copyMutate (TrieNode p k d s hh act l r)
                        (\<lambda>n. set_Data None (set_isActive False n)) a of
                   Inl pn \<Rightarrow> Inl pn
                 | Inr (newNode, a1) \<Rightarrow> Inr (newNode, None, a1))
       | compareContains \<Rightarrow>
           (case del (if child = 0 then l else r) key opts a of
              Inl pn \<Rightarrow> Inl pn
            | Inr (newChild, err, a1) \<Rightarrow>
                if err \<noteq> None then Inr (TrieNode p k d s hh act l r, err, a1)
                else if newChild = NilNode \<and> \<not> act
                then Inr (get_child (TrieNode p k d s hh act l r) (reverseChild child),
                          None, a1)
                else (case copyMutate (TrieNode p k d s hh act l r)
                             (\<lambda>n. set_child child newChild n) a1 of
                        Inl pn \<Rightarrow> Inl pn
                      | Inr (newNode, a2) \<Rightarrow> Inr (newNode, None, a2)))
       | compareIsContained \<Rightarrow>
           if flatten opts then Inr (NilNode, None, a)
           else Inr (TrieNode p k d s hh act l r, Some ''key not found'', a)
       | compareDisjoint \<Rightarrow>
           Inr (TrieNode p k d s hh act l r, Some ''key not found'', a)))"

definition Delete ::
  "'v trieNode \<Rightarrow> Prefix \<Rightarrow> nat
     \<Rightarrow> panic \<times> nat + 'v trieNode \<times> string option \<times> nat" where
  "Delete me key a = del me key \<lparr>flatten = False\<rparr> a"

section \<open>GetOrInsert\<close>

text \<open>
  The deferred function runs when the body returns and also when it panics. It sees the
  named results \<open>head\<close> and \<open>result\<close> as the body left them: both nil when the
  recursive call panicked, \<open>head\<close> still nil when \<open>copyMutate\<close> panicked after
  \<open>result\<close> was assigned. \<open>panicking\<close> is the panic in flight, if any. With
  \<open>result\<close> nil it allocates the node and calls \<open>insert\<close>: a panic of \<open>insert\<close> or
  the panic on its error replaces the one in flight; otherwise the one in flight goes on
  unwinding, or the function returns the results the deferred function has set.
\<close>

definition GetOrInsert_deferred ::
  "'v trieNode \<Rightarrow> Prefix \<Rightarrow> 'v iface option \<Rightarrow> panic option
     \<Rightarrow> 'v trieNode \<times> 'v trieNode \<Rightarrow> nat
     \<Rightarrow> panic \<times> nat + 'v trieNode \<times> 'v trieNode \<times> nat" where
  "GetOrInsert_deferred me searchKey data panicking ret a =
    (case ret of (head, result) \<Rightarrow>
      if result = NilNode
      then (case insert_node me (new_node a searchKey data)
                   \<lparr>insert_opt = True, update_opt = False, eq_opt = None\<rparr> (Suc a) of
              Inl pn \<Rightarrow> Inl pn
            | Inr (head', err, result', a1) \<Rightarrow>
                (case err of
                   Some e \<Rightarrow> Inl (ShouldntHappen e, a1)
                 | None \<Rightarrow>
                     (case panicking of
                        Some pn \<Rightarrow> Inl (pn, a1)
                      | None \<Rightarrow> Inr (head', result', a1))))
      else (case panicking of
              Some pn \<Rightarrow> Inl (pn, a)
            | None \<Rightarrow> Inr (head, result, a)))"

text \<open>\<open>GetOrInsert\<close> returns \<open>(head, result)\<close> and the next free address.\<close>

fun GetOrInsert ::
  "'v trieNode \<Rightarrow> Prefix \<Rightarrow> 'v iface option \<Rightarrow> nat
     \<Rightarrow> panic \<times> nat + 'v trieNode \<times> 'v trieNode \<times> nat" where
  "GetOrInsert NilNode searchKey data a =
     GetOrInsert_deferred NilNode searchKey data None (NilNode, NilNode) a"
| "GetOrInsert (TrieNode p k d s hh act l r) searchKey data a =
    (if length_p searchKey < length_p k
     then GetOrInsert_deferred (TrieNode p k d s hh act l r) searchKey data None
            (NilNode, NilNode) a
     else case contains k searchKey of (matches, exact, _, child) \<Rightarrow>
       if \<not> matches
       then GetOrInsert_deferred (TrieNode p k d s hh act l r) searchKey data None
              (NilNode, NilNode) a
       else if \<not> exact
       then (case GetOrInsert (if child = 0 then l else r) searchKey data a of
               Inl (pn, a1) \<Rightarrow>
                 GetOrInsert_deferred (TrieNode p k d s hh act l r) searchKey data (Some pn)
                   (NilNode, NilNode) a1
             | Inr (newChild, result, a1) \<Rightarrow>
                 (case copyMutate (TrieNode p k d s hh act l r)
                         (\<lambda>n. set_child child newChild n) a1 of
                    Inl (pn, a2) \<Rightarrow>
                      GetOrInsert_deferred (TrieNode p k d s hh act l r) searchKey data
                        (Some pn) (NilNode, result) a2
                  | Inr (head, a2) \<Rightarrow>
                      GetOrInsert_deferred (TrieNode p k d s hh act l r) searchKey data None
                        (head, result) a2))
       else if \<not> act
       then GetOrInsert_deferred (TrieNode p k d s hh act l r) searchKey data None
              (NilNode, NilNode) a
       else GetOrInsert_deferred (TrieNode p k d s hh act l r) searchKey data None
              (TrieNode p k d s hh act l r, TrieNode p k d s hh act l r) a)"

section \<open>The mutable table\<close>

text \<open>
  The methods of the mutable table \<open>TableX_\<close> that change it: each runs the trie
  operation on the current root and installs the new root through \<open>mutate\<close>, which
  swaps the root pointer when the callback reports success and the pointer changed.
  \<open>Insert\<close> and \<open>Update\<close> report success when the trie returned no error;
  \<open>InsertOrUpdate\<close>, \<open>GetOrInsert\<close> and \<open>Remove\<close> always do. The table's comparator
  \<open>eq\<close> is set when the table is made and is not nil. The state is the root and the
  next free address; a single writer, so the compare-and-swap of \<open>mutate\<close> succeeds.
  When the trie operation panics the callback never returns, no root is installed and
  the panic leaves the method: the result is the panic and the table as it was.
\<close>

datatype 'v operation =
    OpInsert Prefix "'v iface option"
  | OpUpdate Prefix "'v iface option"
  | OpInsertOrUpdate Prefix "'v iface option"
  | OpGetOrInsert Prefix "'v iface option"
  | OpRemove Prefix

fun op_key :: "'v operation \<Rightarrow> Prefix" where
  "op_key (OpInsert k v) = k"
| "op_key (OpUpdate k v) = k"
| "op_key (OpInsertOrUpdate k v) = k"
| "op_key (OpGetOrInsert k v) = k"
| "op_key (OpRemove k) = k"

definition TableX_mutate :: "'v trieNode \<Rightarrow> bool \<Rightarrow> 'v trieNode \<Rightarrow> 'v trieNode" where
  "TableX_mutate oldNode ok newNode = (if ok \<and> \<not> ptr_eq oldNode newNode then newNode else oldNode)"

fun apply_operation ::
  "'v comparator \<Rightarrow> 'v operation \<Rightarrow> 'v trieNode \<times> nat
     \<Rightarrow> panic option \<times> 'v trieNode \<times> nat" where
  "apply_operation eq (OpInsert k v) (root, a) =
    (case Insert root k v a of
       Inl (pn, a') \<Rightarrow> (Some pn, root, a')
     | Inr (newHead, err, a') \<Rightarrow>
         (None, if err \<noteq> None then TableX_mutate root False NilNode
                else TableX_mutate root True newHead, a'))"
| "apply_operation eq (OpUpdate k v) (root, a) =
    (case Update root k v (Some eq) a of
       Inl (pn, a') \<Rightarrow> (Some pn, root, a')
     | Inr (newHead, err, a') \<Rightarrow>
         (None, if err \<noteq> None then TableX_mutate root False NilNode
                else TableX_mutate root True newHead, a'))"
| "apply_operation eq (OpInsertOrUpdate k v) (root, a) =
    (case InsertOrUpdate root k v (Some eq) a of
       Inl (pn, a') \<Rightarrow> (Some pn, root, a')
     | Inr (newHead, a') \<Rightarrow> (None, TableX_mutate root True newHead, a'))"
| "apply_operation eq (OpGetOrInsert k v) (root, a) =
    (case GetOrInsert root k v a of
       Inl (pn, a') \<Rightarrow> (Some pn, root, a')
     | Inr (newHead, node, a') \<Rightarrow> (None, TableX_mutate root True newHead, a'))"
| "apply_operation eq (OpRemove k) (root, a) =
    (case Delete root k a of
       Inl (pn, a') \<Rightarrow> (Some pn, root, a')
     | Inr (newHead, err, a') \<Rightarrow> (None, TableX_mutate root True newHead, a'))"

text \<open>A sequence of operations stops at the first panic: the result is that panic, if
  any, and the table as the last operation that ran left it.\<close>

fun run_operations ::
  "'v comparator \<Rightarrow> 'v operation list \<Rightarrow> 'v trieNode \<times> nat
     \<Rightarrow> panic option \<times> 'v trieNode \<times> nat" where
  "run_operations eq [] st = (None, st)"
| "run_operations eq (op # ops) st =
    (case apply_operation eq op st of
       (Some pn, st') \<Rightarrow> (Some pn, st')
     | (None, st') \<Rightarrow> run_operations eq ops st')"

section \<open>Notions used to state the properties\<close>

text \<open>\<open>Prefix{addr: Address{ui: x}, length: n}\<close>.\<close>

definition mkPrefix :: "uint128 \<Rightarrow> 32 word \<Rightarrow> Prefix" where
  "mkPrefix x n = \<lparr>addr = \<lparr>ui = x\<rparr>, length_p = n\<rparr>"

text \<open>The first \<open>n\<close> bits of a key, bit 0 being the most significant one, as a number.\<close>

definition first_bits :: "nat \<Rightarrow> uint128 \<Rightarrow> uint128" where
  "first_bits n x = drop_bit (128 - n) x"

text \<open>Equality of prefixes in the words of the spec: equal lengths and equal first
  \<open>length\<close> bits, whatever the bits beyond.\<close>

definition prefix_equal_spec :: "Prefix \<Rightarrow> Prefix \<Rightarrow> bool" where
  "prefix_equal_spec p q =
    (length_p p = length_p q \<and>
     first_bits (unat (length_p p)) (ui (addr p)) = first_bits (unat (length_p p)) (ui (addr q)))"

text \<open>Two tries that agree node by node, with prefixes compared as the spec says
  (\<open>Equal_spec\<close>) and with prefixes compared field by field (\<open>same_entries\<close>).\<close>

fun Equal_spec :: "'v trieNode \<Rightarrow> 'v trieNode \<Rightarrow> 'v comparator \<Rightarrow> bool" where
  "Equal_spec NilNode NilNode eq = True"
| "Equal_spec (TrieNode a k d s hh act l r) (TrieNode a' k' d' s' hh' act' l' r') eq =
    (prefix_equal_spec k k' \<and> act = act' \<and> (act \<longrightarrow> eq d d') \<and>
     Equal_spec l l' eq \<and> Equal_spec r r' eq)"
| "Equal_spec _ _ eq = False"

fun same_entries :: "'v trieNode \<Rightarrow> 'v trieNode \<Rightarrow> 'v comparator \<Rightarrow> bool" where
  "same_entries NilNode NilNode eq = True"
| "same_entries (TrieNode a k d s hh act l r) (TrieNode a' k' d' s' hh' act' l' r') eq =
    (k = k' \<and> act = act' \<and> (act \<longrightarrow> eq d d') \<and>
     same_entries l l' eq \<and> same_entries r r' eq)"
| "same_entries _ _ eq = False"

text \<open>The prefixes of scenario S4 on 128-bit keys: 10.0.0.0/24, 10.0.1.0/24 and their
  23-bit join, in the upper 32 bits of the address.\<close>

definition prefix_A :: Prefix where
  "prefix_A = mkPrefix (push_bit 96 0x0a000000) 24"

definition prefix_B :: Prefix where
  "prefix_B = mkPrefix (push_bit 96 0x0a000100) 24"

definition prefix_join :: Prefix where
  "prefix_join = mkPrefix (push_bit 96 0x0a000000) 23"

definition node_A :: "nat \<Rightarrow> 'v iface option \<Rightarrow> 'v trieNode" where
  "node_A a v = TrieNode a prefix_A v 1 1 True NilNode NilNode"

definition node_B :: "nat \<Rightarrow> 'v iface option \<Rightarrow> 'v trieNode" where
  "node_B a v = TrieNode a prefix_B v 1 1 True NilNode NilNode"


text \<open>Bit \<open>i\<close> of a key, counted from the most significant bit.\<close>

definition pbit :: "uint128 \<Rightarrow> nat \<Rightarrow> bool" where
  "pbit x i = (i < 128 \<and> bit x (127 - i))"

text \<open>Two keys agree on their first \<open>n\<close> bits.\<close>

definition agree :: "nat \<Rightarrow> uint128 \<Rightarrow> uint128 \<Rightarrow> bool" where
  "agree n a b = (first_bits n a = first_bits n b)"

text \<open>
  The shape invariants of the data model. \<open>child_ok k i c\<close>: a non-nil child \<open>c\<close> in
  slot \<open>i\<close> of a node with prefix \<open>k\<close> has a longer prefix that agrees with \<open>k\<close> on the
  first \<open>k.length\<close> bits and whose next bit is the slot index (invariants 1 and 2).
  \<open>wf_trie\<close> asks this of every node, with every length within 0..128.
\<close>

definition key_below :: "Prefix \<Rightarrow> nat \<Rightarrow> Prefix \<Rightarrow> bool" where
  "key_below k i kc =
    (length_p k < length_p kc \<and>
     agree (unat (length_p k)) (ui (addr k)) (ui (addr kc)) \<and>
     pbit (ui (addr kc)) (unat (length_p k)) = (i = 1))"

fun child_ok :: "Prefix \<Rightarrow> nat \<Rightarrow> 'v trieNode \<Rightarrow> bool" where
  "child_ok k i NilNode = True"
| "child_ok k i (TrieNode a kc d s hh act l r) = key_below k i kc"

fun wf_trie :: "'v trieNode \<Rightarrow> bool" where
  "wf_trie NilNode = True"
| "wf_trie (TrieNode a k d s hh act l r) =
    (length_p k \<le> 128 \<and> child_ok k 0 l \<and> child_ok k 1 r \<and> wf_trie l \<and> wf_trie r)"

text \<open>\<open>cache_ok\<close>: an inactive node has both children, and the cached size and height
  of every node are those of its children (invariants 3, 4 and 5, in the arithmetic of
  the fields).\<close>

fun cache_ok :: "'v trieNode \<Rightarrow> bool" where
  "cache_ok NilNode = True"
| "cache_ok (TrieNode a k d s hh act l r) =
    ((act \<or> (l \<noteq> NilNode \<and> r \<noteq> NilNode)) \<and>
     s = word_of_int (NumNodes l + NumNodes r) + (if act then 1 else 0) \<and>
     hh = word_of_int (1 + intMax (height l) (height r)) \<and>
     cache_ok l \<and> cache_ok r)"

text \<open>The position of a trie below a parent: at the root, or in slot \<open>i\<close> of a node
  with prefix \<open>k\<close>.\<close>

fun key_fits :: "(Prefix \<times> nat) option \<Rightarrow> Prefix \<Rightarrow> bool" where
  "key_fits None k = True"
| "key_fits (Some (kp, i)) k = key_below kp i k"

fun fits :: "(Prefix \<times> nat) option \<Rightarrow> 'v trieNode \<Rightarrow> bool" where
  "fits par NilNode = True"
| "fits par (TrieNode a k d s hh act l r) = key_fits par k"

text \<open>The prefix of the node that \<open>insert\<close> creates to join two disjoint keys with
  \<open>common\<close> bits in common.\<close>

definition join_prefix :: "Prefix \<Rightarrow> 32 word \<Rightarrow> Prefix" where
  "join_prefix k common =
    \<lparr>addr = \<lparr>ui = and128 (ui (addr k))
        (complement (rightShift (uint128 0xffffffffffffffff 0xffffffffffffffff)
           (unat common)))\<rparr>,
     length_p = common\<rparr>"

text \<open>A node with its cached size and height recomputed, as \<open>mutate\<close> leaves it.\<close>

fun refresh :: "'v trieNode \<Rightarrow> 'v trieNode" where
  "refresh NilNode = NilNode"
| "refresh (TrieNode a k d s hh act l r) =
    TrieNode a k d (word_of_int (NumNodes l + NumNodes r) + (if act then 1 else 0))
      (word_of_int (1 + intMax (height l) (height r))) act l r"

text \<open>All nodes of a trie, and its entries: the active ones.\<close>

fun nodes :: "'v trieNode \<Rightarrow> 'v trieNode list" where
  "nodes NilNode = []"
| "nodes (TrieNode a k d s hh act l r) = TrieNode a k d s hh act l r # nodes l @ nodes r"

definition entries :: "'v trieNode \<Rightarrow> 'v trieNode list" where
  "entries t = filter isActive (nodes t)"

text \<open>A prefix contains a key: the key is at least as long and has the same first
  \<open>length\<close> bits as the prefix.\<close>

definition prefix_contains :: "Prefix \<Rightarrow> Prefix \<Rightarrow> bool" where
  "prefix_contains p key =
    (length_p p \<le> length_p key \<and> agree (unat (length_p p)) (ui (addr p)) (ui (addr key)))"

text \<open>Values on which \<open>==\<close> cannot panic: the nil interface and the values of a
  comparable dynamic type; a trie all of whose nodes hold such a value; the value an
  operation supplies.\<close>

fun comparable_data :: "'v iface option \<Rightarrow> bool" where
  "comparable_data None = True"
| "comparable_data (Some (Comparable x)) = True"
| "comparable_data (Some (Uncomparable t x)) = False"

fun all_comparable :: "'v trieNode \<Rightarrow> bool" where
  "all_comparable NilNode = True"
| "all_comparable (TrieNode a k d s hh act l r) =
    (comparable_data d \<and> all_comparable l \<and> all_comparable r)"

fun op_data :: "'v operation \<Rightarrow> 'v iface option" where
  "op_data (OpInsert k v) = v"
| "op_data (OpUpdate k v) = v"
| "op_data (OpInsertOrUpdate k v) = v"
| "op_data (OpGetOrInsert k v) = v"
| "op_data (OpRemove k) = None"

text \<open>A chain of three nested prefixes: 10.0.0.0/16 contains \<open>prefix_A\<close> = 10.0.0.0/24,
  which contains 10.0.0.1/32.\<close>

definition prefix_T :: Prefix where
  "prefix_T = mkPrefix (push_bit 96 0x0a000000) 16"

definition prefix_L :: Prefix where
  "prefix_L = mkPrefix (push_bit 96 0x0a000001) 32"

section \<open>Evaluation on concrete keys\<close>

lemma uint128_ones: "uint128 0xffffffffffffffff 0xffffffffffffffff = - 1"
  unfolding uint128_def by (simp add: word_cat_eq)

lemma uint128_top: "uint128 0x8000000000000000 0 = push_bit 127 1"
  unfolding uint128_def by (simp add: word_cat_eq)

lemma uint128_zero: "uint128 0 0 = 0"
  unfolding uint128_def by (simp add: word_cat_eq)

lemma clz_numeral:
  "clz (numeral n) x = (if bit x (pred_numeral n) then 0 else Suc (clz (pred_numeral n) x))"
  by (simp add: numeral_eq_Suc)

lemmas trie_eval =
  contains_def compare_def uint128_ones uint128_top uint128_zero leftShift_def rightShift_def
  and128_def xor128_def complement_def leadingZeros_def Let_def clz_numeral mask_eq_exp_minus_1
  mutate_def copyMutate_def intMax_def new_node_def reverseChild_def isValid_def call_eq_def


section \<open>Basic facts\<close>

lemma set_nonnil [simp]:
  "(set_ptr a n = NilNode) = (n = NilNode)"
  "(set_Data dd n = NilNode) = (n = NilNode)"
  "(set_size ss n = NilNode) = (n = NilNode)"
  "(set_h hh n = NilNode) = (n = NilNode)"
  "(set_isActive b n = NilNode) = (n = NilNode)"
  "(set_children l r n = NilNode) = (n = NilNode)"
  "(set_child c x n = NilNode) = (n = NilNode)"
  by (cases n; simp)+

lemma mutate_nonnil:
  "me \<noteq> NilNode \<Longrightarrow> mutator me \<noteq> NilNode \<Longrightarrow> mutate me mutator \<noteq> NilNode"
  by (simp add: mutate_def Let_def)

lemma contains_exact_matches:
  "contains a b = (m, e, c, ch) \<Longrightarrow> e \<Longrightarrow> m \<and> length_p a = length_p b"
  by (auto simp: contains_def Let_def)

lemma compare_reversed:
  assumes "length_p b < length_p a"
  shows "fst (compare a b) = compareIsContained \<or> fst (compare a b) = compareDisjoint"
proof -
  obtain m e c ch where c: "contains b a = (m, e, c, ch)" by (cases "contains b a") auto
  have "\<not> e" using contains_exact_matches[OF c] assms by auto
  then show ?thesis using assms c by (simp add: compare_def)
qed

lemma compare_not_matches:
  assumes "\<not> length_p b < length_p a" "contains a b = (False, e, c, ch)"
  shows "fst (compare a b) = compareDisjoint"
proof -
  have "\<not> e" using contains_exact_matches[OF assms(2)] by auto
  then show ?thesis using assms by (simp add: compare_def)
qed

lemma compare_exact:
  assumes "\<not> length_p b < length_p a" "contains a b = (True, True, c, ch)"
  shows "fst (compare a b) = compareSame"
  using assms by (simp add: compare_def)

lemma ptr_eq_refl: "ptr_eq t t"
  by (cases t) simp_all

section \<open>Bits of a key\<close>

lemma first_bits_eq_iff:
  "first_bits n a = first_bits n b \<longleftrightarrow> (\<forall>i<n. pbit a i = pbit b i)"
proof
  assume eq: "first_bits n a = first_bits n b"
  show "\<forall>i<n. pbit a i = pbit b i"
  proof (intro allI impI)
    fix i assume i: "i < n"
    show "pbit a i = pbit b i"
    proof (cases "i < 128")
      case True
      have "bit (drop_bit (128 - n) a) (127 - i - (128 - n)) = bit (drop_bit (128 - n) b) (127 - i - (128 - n))"
        using eq by (simp add: first_bits_def)
      moreover have "128 - n + (127 - i - (128 - n)) = 127 - i" using i True by simp
      ultimately show ?thesis using True by (simp add: pbit_def bit_drop_bit_eq)
    next
      case False
      then show ?thesis by (simp add: pbit_def)
    qed
  qed
next
  assume h: "\<forall>i<n. pbit a i = pbit b i"
  show "first_bits n a = first_bits n b"
    unfolding first_bits_def
  proof (rule bit_word_eqI)
    fix j assume j: "j < LENGTH(128)"
    show "bit (drop_bit (128 - n) a) j = bit (drop_bit (128 - n) b) j"
    proof (cases "128 - n + j < 128")
      case True
      then have "127 - (128 - n + j) < n" by simp
      with h have "pbit a (127 - (128 - n + j)) = pbit b (127 - (128 - n + j))" by blast
      moreover have "127 - (127 - (128 - n + j)) = 128 - n + j" using True by simp
      moreover have "127 - (128 - n + j) < (128::nat)" by arith
      ultimately show ?thesis by (simp add: pbit_def bit_drop_bit_eq)
    next
      case False
      then have "\<not> bit a (128 - n + j)" "\<not> bit b (128 - n + j)"
        by (auto dest: bit_imp_le_length)
      then show ?thesis by (simp add: bit_drop_bit_eq)
    qed
  qed
qed

lemma and_mask_eq_iff:
  fixes a b :: uint128
  assumes "n \<le> 128"
  shows "(a AND push_bit (128 - n) (- 1) = b AND push_bit (128 - n) (- 1))
           \<longleftrightarrow> (\<forall>i<n. pbit a i = pbit b i)"
proof
  assume eq: "a AND push_bit (128 - n) (- 1) = b AND push_bit (128 - n) (- 1)"
  show "\<forall>i<n. pbit a i = pbit b i"
  proof (intro allI impI)
    fix i assume i: "i < n"
    then have i128: "i < 128" using assms by simp
    have "bit (a AND push_bit (128 - n) (- 1)) (127 - i) = bit (b AND push_bit (128 - n) (- 1)) (127 - i)"
      using eq by simp
    moreover have "128 - n \<le> 127 - i" using i assms by simp
    ultimately show "pbit a i = pbit b i"
      using i128 by (auto simp: pbit_def bit_and_iff bit_not_iff bit_mask_iff)
  qed
next
  assume h: "\<forall>i<n. pbit a i = pbit b i"
  show "a AND push_bit (128 - n) (- 1) = b AND push_bit (128 - n) (- 1)"
  proof (rule bit_word_eqI)
    fix j assume j: "j < LENGTH(128)"
    show "bit (a AND push_bit (128 - n) (- 1)) j = bit (b AND push_bit (128 - n) (- 1)) j"
    proof (cases "128 - n \<le> j")
      case True
      then have "127 - j < n" using j by simp
      with h have "pbit a (127 - j) = pbit b (127 - j)" by blast
      moreover have "127 - (127 - j) = j" using j by simp
      moreover have "127 - j < (128::nat)" by arith
      ultimately show ?thesis using j by (simp add: pbit_def bit_and_iff)
    next
      case False
      then show ?thesis by (simp add: bit_and_iff bit_not_iff bit_mask_iff)
    qed
  qed
qed

lemma uint128_top_exp: "uint128 0x8000000000000000 0 = 2 ^ 127"
  unfolding uint128_def by (simp add: word_cat_eq)

lemma pivot_gen:
  fixes a :: uint128
  assumes "n < 128"
  shows "(a AND drop_bit c (2 ^ n) \<noteq> 0) \<longleftrightarrow> (c \<le> n \<and> bit a (n - c))"
proof (cases "c \<le> n")
  case True
  have "drop_bit c (2 ^ n :: uint128) = 2 ^ (n - c)"
    using True assms by (simp add: drop_bit_exp_eq)
  moreover have "(a AND 2 ^ (n - c) \<noteq> 0) \<longleftrightarrow> bit a (n - c)"
    by (simp add: and_exp_eq_0_iff_not_bit)
  ultimately show ?thesis using True by simp
next
  case False
  have "drop_bit c (2 ^ n :: uint128) = 0"
    using False by (simp add: drop_bit_exp_eq)
  then show ?thesis using False by simp
qed

lemma pivot_iff:
  "(and128 a (rightShift (uint128 0x8000000000000000 0) c) \<noteq> uint128 0 0) \<longleftrightarrow> pbit a c"
proof -
  have "(a AND drop_bit c (2 ^ 127) \<noteq> 0) \<longleftrightarrow> (c \<le> 127 \<and> bit a (127 - c))"
    by (rule pivot_gen) simp
  moreover have "c \<le> 127 \<longleftrightarrow> c < 128" by arith
  ultimately show ?thesis
    unfolding and128_def rightShift_def uint128_top_exp uint128_zero pbit_def by simp
qed

lemma mask_iff:
  assumes "n \<le> 128"
  shows "(and128 a (leftShift (uint128 0xffffffffffffffff 0xffffffffffffffff) (128 - n))
            = and128 b (leftShift (uint128 0xffffffffffffffff 0xffffffffffffffff) (128 - n)))
         \<longleftrightarrow> first_bits n a = first_bits n b"
  unfolding and128_def leftShift_def uint128_ones
  using and_mask_eq_iff[OF assms] first_bits_eq_iff by simp

lemma join_bits:
  "pbit (and128 a (complement (rightShift (uint128 0xffffffffffffffff 0xffffffffffffffff) c))) i
     = (i < c \<and> pbit a i)"
  unfolding and128_def complement_def rightShift_def uint128_ones
  by (auto simp: pbit_def bit_and_iff bit_not_iff bit_mask_iff)

lemma pbit_xor: "pbit (a XOR b) i = (pbit a i \<noteq> pbit b i)"
  by (auto simp: pbit_def bit_xor_iff)

lemma clz_le: "clz n x \<le> n"
  by (induction n) auto

lemma clz_zero_bits: "i < clz n x \<Longrightarrow> \<not> bit x (n - 1 - i)"
proof (induction n arbitrary: i)
  case 0
  then show ?case by simp
next
  case (Suc n)
  show ?case
  proof (cases i)
    case 0
    then show ?thesis using Suc.prems by (auto split: if_splits)
  next
    case (Suc j)
    then have "j < clz n x" using Suc.prems by (auto split: if_splits)
    from Suc.IH[OF this] have "\<not> bit x (n - 1 - j)" .
    moreover have "j < n" using \<open>j < clz n x\<close> clz_le[of n x] by simp
    ultimately show ?thesis using Suc by simp
  qed
qed

lemma clz_one_bit: "clz n x < n \<Longrightarrow> bit x (n - 1 - clz n x)"
proof (induction n)
  case 0
  then show ?case by simp
next
  case (Suc n)
  then show ?case by (cases "bit x n") auto
qed

lemma leadingZeros_le: "leadingZeros x \<le> 128"
  by (simp add: leadingZeros_def clz_le)

lemma leadingZeros_zero_bits: "i < leadingZeros x \<Longrightarrow> \<not> pbit x i"
  using clz_zero_bits[of i 128 x] by (simp add: leadingZeros_def pbit_def)

lemma leadingZeros_one_bit: "leadingZeros x < 128 \<Longrightarrow> pbit x (leadingZeros x)"
  using clz_one_bit[of 128 x] by (simp add: leadingZeros_def pbit_def)

lemma agree_iff: "agree n a b \<longleftrightarrow> (\<forall>i<n. pbit a i = pbit b i)"
  by (simp add: agree_def first_bits_eq_iff)

lemma agree_refl [simp]: "agree n a a"
  by (simp add: agree_iff)

lemma agree_sym: "agree n a b \<Longrightarrow> agree n b a"
  by (simp add: agree_iff)

lemma agree_trans: "agree n a b \<Longrightarrow> agree n b c \<Longrightarrow> agree n a c"
  by (simp add: agree_iff)

lemma agree_mono: "agree n a b \<Longrightarrow> m \<le> n \<Longrightarrow> agree m a b"
  by (simp add: agree_iff)

lemma agree_pbit: "agree n a b \<Longrightarrow> i < n \<Longrightarrow> pbit a i = pbit b i"
  by (simp add: agree_iff)

lemma agree_Suc: "agree n a b \<Longrightarrow> pbit a n = pbit b n \<Longrightarrow> agree (Suc n) a b"
  by (auto simp: agree_iff less_Suc_eq)

lemma unat_128_minus: "w \<le> 128 \<Longrightarrow> unat (128 - w) = 128 - unat w" for w :: "32 word"
  by (simp add: unat_sub)

lemma unat_le_128: "w \<le> 128 \<Longrightarrow> unat w \<le> 128" for w :: "32 word"
  by (simp add: word_le_nat_alt)

lemma unat_of_nat_small: "c \<le> 128 \<Longrightarrow> unat (of_nat c :: 32 word) = c"
  by (simp add: unat_of_nat)

lemma leadingZeros_xor:
  assumes "\<not> agree n a b"
  shows "leadingZeros (xor128 a b) < n"
    and "agree (leadingZeros (xor128 a b)) a b"
    and "pbit a (leadingZeros (xor128 a b)) \<noteq> pbit b (leadingZeros (xor128 a b))"
proof -
  let ?c = "leadingZeros (xor128 a b)"
  obtain i where i: "i < n" "pbit a i \<noteq> pbit b i"
    using assms by (auto simp: agree_iff)
  then have "pbit (a XOR b) i" by (simp add: pbit_xor)
  then have "\<not> i < ?c" using leadingZeros_zero_bits[of i "a XOR b"] by (auto simp: xor128_def)
  then show "?c < n" using i by simp
  have "i < 128" using i by (auto simp: pbit_def)
  then have "?c < 128" using \<open>\<not> i < ?c\<close> by simp
  have "pbit (a XOR b) (leadingZeros (a XOR b))"
    using \<open>?c < 128\<close> by (intro leadingZeros_one_bit) (simp add: xor128_def)
  then show "pbit a ?c \<noteq> pbit b ?c"
    by (simp add: xor128_def pbit_xor)
  show "agree ?c a b"
    using leadingZeros_zero_bits[of _ "a XOR b"] by (auto simp: agree_iff xor128_def pbit_xor)
qed

lemma contains_match:
  assumes "length_p s \<le> 128" "agree (unat (length_p s)) (ui (addr s)) (ui (addr l))"
  shows "contains s l = (True, length_p s = length_p l, length_p s,
           if length_p s = length_p l then 0
           else if pbit (ui (addr l)) (unat (length_p s)) then 1 else 0)"
  using assms mask_iff[OF unat_le_128[OF assms(1)], of "ui (addr s)" "ui (addr l)"]
  by (simp add: contains_def Let_def unat_128_minus pivot_iff agree_def)

lemma contains_differ:
  assumes "length_p s \<le> 128" "\<not> agree (unat (length_p s)) (ui (addr s)) (ui (addr l))"
  shows "contains s l = (False, False,
           of_nat (leadingZeros (xor128 (ui (addr s)) (ui (addr l)))),
           if pbit (ui (addr l)) (leadingZeros (xor128 (ui (addr s)) (ui (addr l)))) then 1 else 0)"
proof -
  have "leadingZeros (xor128 (ui (addr s)) (ui (addr l))) \<le> 128"
    by (rule leadingZeros_le)
  then show ?thesis
    using assms mask_iff[OF unat_le_128[OF assms(1)], of "ui (addr s)" "ui (addr l)"]
    by (simp add: contains_def Let_def unat_128_minus pivot_iff agree_def unat_of_nat_small)
qed

section \<open>Containership\<close>

text \<open>
  C8. For prefixes with \<open>shorter.length \<le> longer.length\<close> (lengths within 0..128),
  \<open>contains\<close> returns \<open>matches\<close> true exactly when the two addresses agree under the mask
  of all ones shifted left by \<open>128 - shorter.length\<close>, that is on their first
  \<open>shorter.length\<close> bits; when they match, \<open>exact\<close> says whether the lengths are equal
  and \<open>common\<close> is \<open>shorter.length\<close>; when they do not, \<open>common\<close> is the number of
  leading zeros of the XOR of the addresses; and when not exact, \<open>child\<close> is the bit of
  \<open>longer.addr\<close> at position \<open>common\<close>.
\<close>

theorem contains_characterisation:
  assumes "length_p shorter \<le> length_p longer" and "length_p longer \<le> 128"
    and "contains shorter longer = (matches, exact, common, child)"
  shows "(matches \<longleftrightarrow>
            and128 (ui (addr shorter))
              (leftShift (uint128 0xffffffffffffffff 0xffffffffffffffff)
                 (128 - unat (length_p shorter)))
          = and128 (ui (addr longer))
              (leftShift (uint128 0xffffffffffffffff 0xffffffffffffffff)
                 (128 - unat (length_p shorter)))) \<and>
         (matches \<longleftrightarrow>
            first_bits (unat (length_p shorter)) (ui (addr shorter))
          = first_bits (unat (length_p shorter)) (ui (addr longer))) \<and>
         (matches \<longrightarrow> exact = (length_p shorter = length_p longer) \<and> common = length_p shorter) \<and>
         (\<not> matches \<longrightarrow> \<not> exact \<and>
            unat common = leadingZeros (xor128 (ui (addr shorter)) (ui (addr longer)))) \<and>
         (\<not> exact \<longrightarrow> unat common < 128 \<and>
            child = (if pbit (ui (addr longer)) (unat common) then 1 else 0))"
proof -
  let ?n = "unat (length_p shorter)"
  let ?a = "ui (addr shorter)" and ?b = "ui (addr longer)"
  have s: "length_p shorter \<le> 128" using assms(1,2) by simp
  have n: "?n \<le> 128" using s by (rule unat_le_128)
  note m = mask_iff[OF n, of ?a ?b]
  show ?thesis
  proof (cases "agree ?n ?a ?b")
    case True
    have "unat (length_p shorter) < 128" if "length_p shorter \<noteq> length_p longer"
    proof -
      have "length_p shorter < length_p longer" using that assms(1) by simp
      then have "unat (length_p shorter) < unat (length_p longer)" by (simp add: word_less_nat_alt)
      then show ?thesis using unat_le_128[OF assms(2)] by simp
    qed
    then show ?thesis
      using contains_match[OF s True] assms(3) True m by (auto simp: agree_def)
  next
    case False
    have "leadingZeros (xor128 ?a ?b) < ?n" using False by (rule leadingZeros_xor)
    then have "leadingZeros (xor128 ?a ?b) < 128" using n by simp
    then show ?thesis
      using contains_differ[OF s False] assms(3) False m
      by (auto simp: agree_def unat_of_nat_small)
  qed
qed

theorem contains_characterisation_witness:
  "length_p prefix_A \<le> length_p prefix_B \<and> length_p prefix_B \<le> 128 \<and>
   contains prefix_A prefix_B = (False, False, 23, 1) \<and>
   unat (23 :: 32 word) = leadingZeros (xor128 (ui (addr prefix_A)) (ui (addr prefix_B))) \<and>
   (1::nat) = (if pbit (ui (addr prefix_B)) (unat (23 :: 32 word)) then 1 else 0)"
proof -
  have 1: "length_p prefix_A \<le> length_p prefix_B" and 2: "length_p prefix_B \<le> 128"
    by (simp_all add: prefix_A_def prefix_B_def mkPrefix_def)
  have 3: "contains prefix_A prefix_B = (False, False, 23, 1)"
    by (simp add: trie_eval prefix_A_def prefix_B_def mkPrefix_def)
  from contains_characterisation[OF 1 2 3]
  have "unat (23 :: 32 word) = leadingZeros (xor128 (ui (addr prefix_A)) (ui (addr prefix_B)))"
    and "(1::nat) = (if pbit (ui (addr prefix_B)) (unat (23 :: 32 word)) then 1 else 0)"
    by blast+
  with 1 2 3 show ?thesis by blast
qed

lemma compare_cases:
  assumes "length_p a \<le> 128" "length_p b \<le> 128"
  obtains
    (same) "length_p a = length_p b" "agree (unat (length_p a)) (ui (addr a)) (ui (addr b))"
      "\<exists>c ch. compare a b = (compareSame, False, c, ch)"
  | (contains) "length_p a < length_p b" "agree (unat (length_p a)) (ui (addr a)) (ui (addr b))"
      "compare a b = (compareContains, False, length_p a,
         if pbit (ui (addr b)) (unat (length_p a)) then 1 else 0)"
  | (is_contained) "length_p b < length_p a"
      "agree (unat (length_p b)) (ui (addr a)) (ui (addr b))"
      "compare a b = (compareIsContained, True, length_p b,
         if pbit (ui (addr a)) (unat (length_p b)) then 1 else 0)"
  | (disjoint) c where "c < unat (length_p a)" "c < unat (length_p b)"
      "agree c (ui (addr a)) (ui (addr b))" "pbit (ui (addr a)) c \<noteq> pbit (ui (addr b)) c"
      "unat (of_nat c :: 32 word) = c"
      "compare a b = (compareDisjoint, length_p b < length_p a, of_nat c,
         if pbit (ui (addr (if length_p b < length_p a then a else b))) c then 1 else 0)"
proof (cases "length_p b < length_p a")
  case rev: True
  show ?thesis
  proof (cases "agree (unat (length_p b)) (ui (addr b)) (ui (addr a))")
    case True
    have "compare a b = (compareIsContained, True, length_p b,
         if pbit (ui (addr a)) (unat (length_p b)) then 1 else 0)"
      using contains_match[OF assms(2) True] rev by (auto simp: compare_def)
    then show ?thesis using rev True by (intro is_contained) (auto dest: agree_sym)
  next
    case False
    let ?c = "leadingZeros (xor128 (ui (addr b)) (ui (addr a)))"
    note lz = leadingZeros_xor[OF False]
    have lt: "unat (length_p b) < unat (length_p a)" using rev by (simp add: word_less_nat_alt)
    have "compare a b = (compareDisjoint, length_p b < length_p a, of_nat ?c,
         if pbit (ui (addr (if length_p b < length_p a then a else b))) ?c then 1 else 0)"
      using contains_differ[OF assms(2) False] rev by (auto simp: compare_def)
    moreover have "unat (of_nat ?c :: 32 word) = ?c"
      by (rule unat_of_nat_small) (rule leadingZeros_le)
    ultimately show ?thesis using lz lt
      by (intro disjoint[of ?c]) (auto dest: agree_sym)
  qed
next
  case nrev: False
  then have le: "length_p a \<le> length_p b" by simp
  show ?thesis
  proof (cases "agree (unat (length_p a)) (ui (addr a)) (ui (addr b))")
    case True
    show ?thesis
    proof (cases "length_p a = length_p b")
      case eq: True
      then show ?thesis using contains_match[OF assms(1) True] nrev True
        by (intro same) (auto simp: compare_def)
    next
      case ne: False
      then have "length_p a < length_p b" using le by simp
      then show ?thesis using contains_match[OF assms(1) True] nrev True ne
        by (intro contains) (auto simp: compare_def)
    qed
  next
    case False
    let ?c = "leadingZeros (xor128 (ui (addr a)) (ui (addr b)))"
    note lz = leadingZeros_xor[OF False]
    have lt: "unat (length_p a) \<le> unat (length_p b)" using le by (simp add: word_le_nat_alt)
    have "compare a b = (compareDisjoint, length_p b < length_p a, of_nat ?c,
         if pbit (ui (addr (if length_p b < length_p a then a else b))) ?c then 1 else 0)"
      using contains_differ[OF assms(1) False] nrev by (auto simp: compare_def)
    moreover have "unat (of_nat ?c :: 32 word) = ?c"
      by (rule unat_of_nat_small) (rule leadingZeros_le)
    ultimately show ?thesis using lz lt
      by (intro disjoint[of ?c]) auto
  qed
qed

section \<open>Shape invariants\<close>

lemma child_ok_trans:
  assumes "child_ok k i (TrieNode a kc d s hh act l r)" "child_ok kc j n"
  shows "child_ok k i n"
proof (cases n)
  case NilNode
  then show ?thesis by simp
next
  case (TrieNode a' kn d' s' hh' act' l' r')
  have lt: "unat (length_p k) < unat (length_p kc)"
    using assms(1) by (simp add: word_less_nat_alt key_below_def)
  have a1: "agree (unat (length_p k)) (ui (addr kc)) (ui (addr kn))"
    using assms(2) TrieNode lt by (auto simp: key_below_def intro: agree_mono)
  have "pbit (ui (addr kn)) (unat (length_p k)) = pbit (ui (addr kc)) (unat (length_p k))"
    using assms(2) TrieNode lt by (auto simp: key_below_def dest: agree_pbit)
  then show ?thesis using assms a1 TrieNode by (auto simp: key_below_def intro: agree_trans)
qed

lemma child_ok_nodes:
  "wf_trie c \<Longrightarrow> child_ok k i c \<Longrightarrow> n \<in> set (nodes c) \<Longrightarrow> child_ok k i n"
proof (induction c arbitrary: k i)
  case NilNode
  then show ?case by simp
next
  case (TrieNode a kc d s hh act l r)
  from TrieNode.prems(3) consider "n = TrieNode a kc d s hh act l r"
    | "n \<in> set (nodes l)" | "n \<in> set (nodes r)" by auto
  then show ?case
  proof cases
    case 1
    then show ?thesis using TrieNode.prems by simp
  next
    case 2
    then have "child_ok kc 0 n" using TrieNode.IH(1) TrieNode.prems(1) by simp
    then show ?thesis using TrieNode.prems(2) by (rule child_ok_trans[rotated])
  next
    case 3
    then have "child_ok kc 1 n" using TrieNode.IH(2) TrieNode.prems(1) by simp
    then show ?thesis using TrieNode.prems(2) by (rule child_ok_trans[rotated])
  qed
qed

lemma nodes_nonnil: "n \<in> set (nodes t) \<Longrightarrow> n \<noteq> NilNode"
  by (induction t) auto

lemma nodes_wf: "wf_trie t \<Longrightarrow> n \<in> set (nodes t) \<Longrightarrow> wf_trie n"
  by (induction t) auto

lemma nodes_cache_ok: "cache_ok t \<Longrightarrow> n \<in> set (nodes t) \<Longrightarrow> cache_ok n"
  by (induction t) auto

lemma mutate_refresh: "me \<noteq> NilNode \<Longrightarrow> mutate me f = refresh (f me)"
  by (cases "f me") (simp_all add: mutate_def Let_def)

lemma refresh_simps [simp]:
  "wf_trie (refresh t) = wf_trie t"
  "child_ok k i (refresh t) = child_ok k i t"
  "fits par (refresh t) = fits par t"
  "(refresh t = NilNode) = (t = NilNode)"
  "ptr_eq (refresh t) u = ptr_eq t u"
  by (cases t; cases u; auto)+

lemma cache_ok_refresh:
  "cache_ok (refresh (TrieNode a k d s hh act l r))
     = ((act \<or> (l \<noteq> NilNode \<and> r \<noteq> NilNode)) \<and> cache_ok l \<and> cache_ok r)"
  by simp

lemma refresh_cache_ok: "cache_ok t \<Longrightarrow> refresh t = t"
  by (cases t) auto

lemma isValidLen_iff:
  "wf_trie t \<Longrightarrow> cache_ok t \<Longrightarrow> isValidLen t m \<longleftrightarrow> (t = NilNode \<or> m \<le> length_p (Prefix t))"
proof (induction t arbitrary: m)
  case NilNode
  then show ?case by simp
next
  case (TrieNode a k d s hh act l r)
  have l: "isValidLen l (length_p k + 1)"
  proof (cases l)
    case NilNode
    then show ?thesis by simp
  next
    case (TrieNode a' kl d' s' hh' act' l' r')
    then have "length_p k < length_p kl" using TrieNode.prems by (simp add: key_below_def)
    then have "length_p k + 1 \<le> length_p kl" by (rule inc_le)
    then show ?thesis using TrieNode.IH(1)[of "length_p k + 1"] TrieNode.prems
      by (simp add: \<open>l = _\<close>)
  qed
  have r: "isValidLen r (length_p k + 1)"
  proof (cases r)
    case NilNode
    then show ?thesis by simp
  next
    case (TrieNode a' kr d' s' hh' act' l' r')
    then have "length_p k < length_p kr" using TrieNode.prems by (simp add: key_below_def)
    then have "length_p k + 1 \<le> length_p kr" by (rule inc_le)
    then show ?thesis using TrieNode.IH(2)[of "length_p k + 1"] TrieNode.prems
      by (simp add: \<open>r = _\<close>)
  qed
  show ?case using l r TrieNode.prems by (auto simp: not_less)
qed

lemma isValid_invariant: "wf_trie t \<Longrightarrow> cache_ok t \<Longrightarrow> isValid t"
  by (simp add: isValid_def isValidLen_iff)

section \<open>Longest prefix match\<close>

lemma entries_simps:
  "entries NilNode = []"
  "set (entries (TrieNode a k d s hh act l r)) =
     (if act then {TrieNode a k d s hh act l r} else {}) \<union> set (entries l) \<union> set (entries r)"
  by (auto simp: entries_def)

lemma entries_nodes: "n \<in> set (entries t) \<Longrightarrow> n \<in> set (nodes t)"
  by (simp add: entries_def)

lemma child_not_contains_short:
  assumes "child_ok k i n" "n \<noteq> NilNode" "length_p key \<le> length_p k"
  shows "\<not> prefix_contains (Prefix n) key"
  using assms by (cases n) (auto simp: prefix_contains_def key_below_def)

lemma child_not_contains_disagree:
  assumes "child_ok k i n" "n \<noteq> NilNode" "\<not> agree (unat (length_p k)) (ui (addr k)) (ui (addr key))"
  shows "\<not> prefix_contains (Prefix n) key"
proof
  assume c: "prefix_contains (Prefix n) key"
  obtain a kn d s hh act l r where n: "n = TrieNode a kn d s hh act l r"
    using assms(2) by (cases n) auto
  have lt: "unat (length_p k) < unat (length_p kn)"
    using assms(1) n by (simp add: word_less_nat_alt key_below_def)
  have "agree (unat (length_p k)) (ui (addr kn)) (ui (addr key))"
    using c n lt by (auto simp: prefix_contains_def intro: agree_mono)
  moreover have "agree (unat (length_p k)) (ui (addr k)) (ui (addr kn))"
    using assms(1) n by (simp add: key_below_def)
  ultimately show False using assms(3) by (blast intro: agree_trans)
qed

lemma child_not_contains_other_slot:
  assumes "child_ok k i n" "n \<noteq> NilNode"
    "pbit (ui (addr key)) (unat (length_p k)) \<noteq> (i = 1)"
  shows "\<not> prefix_contains (Prefix n) key"
proof
  assume c: "prefix_contains (Prefix n) key"
  obtain a kn d s hh act l r where n: "n = TrieNode a kn d s hh act l r"
    using assms(2) by (cases n) auto
  have lt: "unat (length_p k) < unat (length_p kn)"
    using assms(1) n by (simp add: word_less_nat_alt key_below_def)
  have "pbit (ui (addr kn)) (unat (length_p k)) = pbit (ui (addr key)) (unat (length_p k))"
    using c n lt by (auto simp: prefix_contains_def dest: agree_pbit)
  then show False using assms n by (simp add: key_below_def)
qed

lemma Match_longest:
  assumes "wf_trie t"
  shows "(Match t key = NilNode \<longrightarrow> (\<forall>n \<in> set (entries t). \<not> prefix_contains (Prefix n) key)) \<and>
         (Match t key \<noteq> NilNode \<longrightarrow>
            Match t key \<in> set (entries t) \<and> prefix_contains (Prefix (Match t key)) key \<and>
            (\<forall>n \<in> set (entries t). prefix_contains (Prefix n) key \<longrightarrow>
               n = Match t key \<or> length_p (Prefix n) < length_p (Prefix (Match t key))))"
  using assms
proof (induction t)
  case NilNode
  show ?case by (simp add: entries_simps)
next
  case (TrieNode a k d s hh act l r)
  let ?me = "TrieNode a k d s hh act l r"
  have wl: "wf_trie l" and wr: "wf_trie r" and ol: "child_ok k 0 l" and orr: "child_ok k 1 r"
    and k128: "length_p k \<le> 128"
    using TrieNode.prems by simp_all
  have inl: "child_ok k 0 n \<and> n \<noteq> NilNode" if "n \<in> set (entries l)" for n
    using that child_ok_nodes[OF wl ol] nodes_nonnil entries_nodes by blast
  have inr: "child_ok k 1 n \<and> n \<noteq> NilNode" if "n \<in> set (entries r)" for n
    using that child_ok_nodes[OF wr orr] nodes_nonnil entries_nodes by blast
  have below: "\<exists>i. child_ok k i n \<and> n \<noteq> NilNode"
    if "n \<in> set (entries l) \<union> set (entries r)" for n
    using that inl inr by blast
  show ?case
  proof (cases "length_p key < length_p k")
    case True
    then have le: "length_p key \<le> length_p k" by simp
    have "\<not> prefix_contains k key" using True by (auto simp: prefix_contains_def)
    moreover have "\<not> prefix_contains (Prefix n) key" if "n \<in> set (entries l) \<union> set (entries r)" for n
      using below[OF that] le by (metis child_not_contains_short)
    ultimately show ?thesis using True by (auto simp: entries_simps)
  next
    case len: False
    show ?thesis
    proof (cases "agree (unat (length_p k)) (ui (addr k)) (ui (addr key))")
      case False
      then have "\<not> prefix_contains k key" by (simp add: prefix_contains_def)
      moreover have "\<not> prefix_contains (Prefix n) key"
        if "n \<in> set (entries l) \<union> set (entries r)" for n
        using below[OF that] False by (metis child_not_contains_disagree)
      ultimately show ?thesis using len contains_differ[OF k128 False]
        by (auto simp: entries_simps)
    next
      case ag: True
      have pc: "prefix_contains k key" using ag len by (simp add: prefix_contains_def)
      note cm = contains_match[OF k128 ag]
      show ?thesis
      proof (cases "length_p k = length_p key")
        case True
        then have le: "length_p key \<le> length_p k" by simp
        have "\<not> prefix_contains (Prefix n) key"
          if "n \<in> set (entries l) \<union> set (entries r)" for n
          using below[OF that] le by (metis child_not_contains_short)
        then show ?thesis using len cm True pc by (auto simp: entries_simps)
      next
        case ne: False
        show ?thesis
        proof (cases "pbit (ui (addr key)) (unat (length_p k))")
          case bit1: True
          have other: "\<not> prefix_contains (Prefix n) key" if "n \<in> set (entries l)" for n
            using inl[OF that] bit1 by (intro child_not_contains_other_slot[of k 0 n key]) auto
          have M: "Match ?me key = (if Match r key \<noteq> NilNode then Match r key
                      else if \<not> act then NilNode else ?me)"
            using len cm ne bit1 by simp
          have longer: "length_p k < length_p (Prefix n)" if "n \<in> set (entries r)" for n
            using inr[OF that] by (cases n) (auto simp: key_below_def)
          show ?thesis
          proof (cases "Match r key = NilNode")
            case True
            then have "\<forall>n \<in> set (entries r). \<not> prefix_contains (Prefix n) key"
              using TrieNode.IH(2)[OF wr] by simp
            then show ?thesis using M True other pc by (auto simp: entries_simps)
          next
            case False
            then have ih: "Match r key \<in> set (entries r)" "prefix_contains (Prefix (Match r key)) key"
              "\<forall>n \<in> set (entries r). prefix_contains (Prefix n) key \<longrightarrow>
                 n = Match r key \<or> length_p (Prefix n) < length_p (Prefix (Match r key))"
              using TrieNode.IH(2)[OF wr] by simp_all
            show ?thesis using M False other ih longer[OF ih(1)]
              by (auto simp: entries_simps)
          qed
        next
          case bit0: False
          have other: "\<not> prefix_contains (Prefix n) key" if "n \<in> set (entries r)" for n
            using inr[OF that] bit0 by (intro child_not_contains_other_slot[of k 1 n key]) auto
          have M: "Match ?me key = (if Match l key \<noteq> NilNode then Match l key
                      else if \<not> act then NilNode else ?me)"
            using len cm ne bit0 by simp
          have longer: "length_p k < length_p (Prefix n)" if "n \<in> set (entries l)" for n
            using inl[OF that] by (cases n) (auto simp: key_below_def)
          show ?thesis
          proof (cases "Match l key = NilNode")
            case True
            then have "\<forall>n \<in> set (entries l). \<not> prefix_contains (Prefix n) key"
              using TrieNode.IH(1)[OF wl] by simp
            then show ?thesis using M True other pc by (auto simp: entries_simps)
          next
            case False
            then have ih: "Match l key \<in> set (entries l)" "prefix_contains (Prefix (Match l key)) key"
              "\<forall>n \<in> set (entries l). prefix_contains (Prefix n) key \<longrightarrow>
                 n = Match l key \<or> length_p (Prefix n) < length_p (Prefix (Match l key))"
              using TrieNode.IH(1)[OF wl] by simp_all
            show ?thesis using M False other ih longer[OF ih(1)]
              by (auto simp: entries_simps)
          qed
        qed
      qed
    qed
  qed
qed


text \<open>
  C1. On a trie (a tree of active and inactive nodes with the shape invariants
  \<open>wf_trie\<close>, which every operation keeps), \<open>Match\<close> returns nil exactly when no active
  entry's prefix contains the search key; otherwise it returns an active entry whose
  prefix contains the key, and every other active entry whose prefix contains the key
  has a strictly shorter prefix, so the result is the unique longest match.
\<close>

theorem Match_longest_prefix:
  assumes "wf_trie t"
  shows "(Match t key = NilNode \<longleftrightarrow> (\<forall>n \<in> set (entries t). \<not> prefix_contains (Prefix n) key)) \<and>
         (Match t key \<noteq> NilNode \<longrightarrow>
            Match t key \<in> set (entries t) \<and> prefix_contains (Prefix (Match t key)) key \<and>
            (\<forall>n \<in> set (entries t). prefix_contains (Prefix n) key \<longrightarrow>
               n = Match t key \<or> length_p (Prefix n) < length_p (Prefix (Match t key))))"
  using Match_longest[OF assms, of key] by blast

lemmas shape_eval =
  agree_def first_bits_def pbit_def prefix_contains_def entries_def key_below_def

theorem Match_longest_prefix_witness:
  "wf_trie (TrieNode 2 prefix_join None 2 2 False (node_A 0 (Some (Comparable (1::nat)))) (node_B 1 (Some (Comparable 2))))
   \<and> Match (TrieNode 2 prefix_join None 2 2 False (node_A 0 (Some (Comparable (1::nat)))) (node_B 1 (Some (Comparable 2))))
        (mkPrefix (push_bit 96 0x0a000105) 128) = node_B 1 (Some (Comparable 2))
   \<and> node_B 1 (Some (Comparable 2)) \<in> set (entries
        (TrieNode 2 prefix_join None 2 2 False (node_A 0 (Some (Comparable (1::nat)))) (node_B 1 (Some (Comparable 2)))))
   \<and> prefix_contains (Prefix (node_B 1 (Some (Comparable (2::nat))))) (mkPrefix (push_bit 96 0x0a000105) 128)"
proof -
  let ?t = "TrieNode 2 prefix_join None 2 2 False (node_A 0 (Some (Comparable (1::nat)))) (node_B 1 (Some (Comparable 2)))"
  let ?key = "mkPrefix (push_bit 96 0x0a000105) 128"
  have w: "wf_trie ?t"
    by (simp add: shape_eval prefix_A_def prefix_B_def prefix_join_def node_A_def node_B_def
          mkPrefix_def)
  have m: "Match ?t ?key = node_B 1 (Some (Comparable 2))"
    by (simp add: trie_eval prefix_A_def prefix_B_def prefix_join_def node_A_def node_B_def
          mkPrefix_def)
  note th = Match_longest_prefix[OF w, of ?key, unfolded m]
  have nn: "node_B 1 (Some (Comparable (2::nat))) \<noteq> NilNode" by (simp add: node_B_def)
  from th nn have e: "node_B 1 (Some (Comparable 2)) \<in> set (entries ?t)"
    and c: "prefix_contains (Prefix (node_B 1 (Some (Comparable (2::nat))))) ?key"
    by blast+
  from w m e c show ?thesis by (intro conjI)
qed

section \<open>Failed operations\<close>

lemma insert_node_error_head:
  "insert_node me node opts a = Inr (head, Some e, nd, a') \<Longrightarrow> head = me \<and> nd = node"
proof (induction me arbitrary: head e a')
  case NilNode
  then show ?case by (simp add: Let_def split: if_splits)
next
  case (TrieNode p k d s hh act l r)
  then show ?case
    by (auto simp: Let_def split: prod.splits comparison.splits if_splits sum.splits)
qed

lemma del_error_head:
  "del me key opts a = Inr (head, Some e, a') \<Longrightarrow> head = me"
proof (induction me arbitrary: head e a')
  case NilNode
  then show ?case by (simp split: if_splits)
next
  case (TrieNode p k d s hh act l r)
  then show ?case
    by (auto split: prod.splits comparison.splits if_splits sum.splits)
qed

text \<open>
  C3. Whenever \<open>insert\<close> (behind \<open>Insert\<close> and \<open>Update\<close>) or \<open>del\<close> (behind
  \<open>Delete\<close>) returns a non-nil error, the head it returns is the root it was called on:
  the same pointer to the same, unchanged node. A failed \<open>insert\<close> has not touched the
  node it was given either.
\<close>

theorem failed_operation_returns_root:
  "(insert_node me node opts a = Inr (head, Some e, nd, a')
      \<longrightarrow> head = me \<and> ptr_eq head me \<and> nd = node) \<and>
   (del me key dopts b = Inr (head2, Some e2, b2) \<longrightarrow> head2 = me \<and> ptr_eq head2 me) \<and>
   (Insert me key data a = Inr (head3, Some e3, a3) \<longrightarrow> head3 = me \<and> ptr_eq head3 me) \<and>
   (Update me key data eqo a = Inr (head4, Some e4, a4) \<longrightarrow> head4 = me \<and> ptr_eq head4 me) \<and>
   (Delete me key b = Inr (head5, Some e5, b5) \<longrightarrow> head5 = me \<and> ptr_eq head5 me)"
proof (intro conjI impI)
  assume "insert_node me node opts a = Inr (head, Some e, nd, a')"
  from insert_node_error_head[OF this] show "head = me" "ptr_eq head me" "nd = node"
    by (simp_all add: ptr_eq_refl)
next
  assume "del me key dopts b = Inr (head2, Some e2, b2)"
  from del_error_head[OF this] show "head2 = me" "ptr_eq head2 me"
    by (simp_all add: ptr_eq_refl)
next
  assume "Insert me key data a = Inr (head3, Some e3, a3)"
  then show "head3 = me" "ptr_eq head3 me"
    by (auto simp: Insert_def ptr_eq_refl split: sum.splits dest: insert_node_error_head)
next
  assume "Update me key data eqo a = Inr (head4, Some e4, a4)"
  then show "head4 = me" "ptr_eq head4 me"
    by (auto simp: Update_def ptr_eq_refl split: sum.splits dest: insert_node_error_head)
next
  assume "Delete me key b = Inr (head5, Some e5, b5)"
  then show "head5 = me" "ptr_eq head5 me"
    by (auto simp: Delete_def ptr_eq_refl dest: del_error_head)
qed

theorem failed_operation_returns_root_witness:
  "Insert (node_A 0 (Some (Comparable (1::nat)))) prefix_A (Some (Comparable 2)) 1
     = Inr (node_A 0 (Some (Comparable 1)), Some ''a node with that key already exists'', 2) \<and>
   Update (node_A 0 (Some (Comparable (1::nat)))) prefix_B (Some (Comparable 2)) (Some (=)) 1
     = Inr (node_A 0 (Some (Comparable 1)), Some ''the key doesn't exist to update'', 2) \<and>
   Delete (node_A 0 (Some (Comparable (1::nat)))) prefix_B 1
     = Inr (node_A 0 (Some (Comparable 1)), Some ''key not found'', 1) \<and>
   insert_node (node_A 0 (Some (Comparable (1::nat)))) (new_node 1 prefix_A (Some (Comparable 2)))
       \<lparr>insert_opt = True, update_opt = False, eq_opt = None\<rparr> 2
     = Inr (node_A 0 (Some (Comparable 1)), Some ''a node with that key already exists'',
            new_node 1 prefix_A (Some (Comparable 2)), 2) \<and>
   del (node_A 0 (Some (Comparable (1::nat)))) prefix_B \<lparr>flatten = False\<rparr> 1
     = Inr (node_A 0 (Some (Comparable 1)), Some ''key not found'', 1) \<and>
   ptr_eq (node_A 0 (Some (Comparable (1::nat)))) (node_A 0 (Some (Comparable 1)))"
  using failed_operation_returns_root
    [of "node_A 0 (Some (Comparable (1::nat)))" "new_node 1 prefix_A (Some (Comparable 2))"
        "\<lparr>insert_opt = True, update_opt = False, eq_opt = None\<rparr>" 2
        "node_A 0 (Some (Comparable 1))" "''a node with that key already exists''"
        "new_node 1 prefix_A (Some (Comparable 2))" 2
        prefix_B "\<lparr>flatten = False\<rparr>" 1 "node_A 0 (Some (Comparable 1))" "''key not found''" 1]
  by (simp add: trie_eval mkPrefix_def Insert_def Update_def Delete_def prefix_A_def
        prefix_B_def node_A_def)

section \<open>Lenient deletion\<close>

text \<open>
  C5. A delete with \<open>flatten\<close> set is meant never to return an error. The code returns
  \<open>key not found\<close> when the key is disjoint from a node's prefix, whatever the option:
  here on the one-entry trie \<open>8000::/1\<close> and the key \<open>::/1\<close>.
\<close>

theorem del_flatten_disjoint_error:
  "del (TrieNode 0 (mkPrefix (push_bit 127 1) 1) (Some v) 1 1 True NilNode NilNode)
       (mkPrefix 0 1) \<lparr>flatten = True\<rparr> a
   = Inr (TrieNode 0 (mkPrefix (push_bit 127 1) 1) (Some v) 1 1 True NilNode NilNode,
          Some ''key not found'', a)"
  by (simp add: trie_eval mkPrefix_def)

section \<open>Structural equality\<close>

text \<open>
  C7 as stated fails: \<open>Equal\<close> compares the prefixes of two nodes field by field, so two
  one-entry tries for 10.0.0.1/24 and 10.0.0.2/24, which the spec calls equal prefixes,
  are not \<open>Equal\<close>.
\<close>

theorem Equal_host_bits_counterexample:
  "Equal_spec (TrieNode 0 (mkPrefix (push_bit 96 0x0a000001) 24) (Some (Comparable (1::nat))) 1 1 True
                 NilNode NilNode)
              (TrieNode 1 (mkPrefix (push_bit 96 0x0a000002) 24) (Some (Comparable 1)) 1 1 True
                 NilNode NilNode) (=)
   \<and> \<not> Equal (TrieNode 0 (mkPrefix (push_bit 96 0x0a000001) 24) (Some (Comparable (1::nat))) 1 1 True
                 NilNode NilNode)
              (TrieNode 1 (mkPrefix (push_bit 96 0x0a000002) 24) (Some (Comparable 1)) 1 1 True
                 NilNode NilNode) (=)"
  by (simp add: mkPrefix_def prefix_equal_spec_def first_bits_def)

text \<open>
  C7, amended. Two tries whose corresponding nodes have identical prefixes (the same
  length and the same address in all 128 bits), equal active flags, predicate-equal data
  on active nodes and recursively equal children are \<open>Equal\<close>.
\<close>

theorem Equal_identical_prefixes:
  "same_entries a b eq \<Longrightarrow> Equal a b eq"
proof (induction a b eq rule: same_entries.induct)
  case (1 eq)
  show ?case by simp
next
  case (2 a k d s hh act l r a' k' d' s' hh' act' l' r' eq)
  then show ?case by auto
qed simp_all

theorem Equal_identical_prefixes_witness:
  "same_entries (TrieNode 2 prefix_join None 2 2 False (node_A 0 (Some (Comparable (1::nat))))
                   (node_B 1 (Some (Comparable 2))))
                (TrieNode 5 prefix_join None 2 2 False (node_A 3 (Some (Comparable 1)))
                   (node_B 4 (Some (Comparable 2)))) (=)
   \<and> Equal (TrieNode 2 prefix_join None 2 2 False (node_A 0 (Some (Comparable (1::nat))))
                   (node_B 1 (Some (Comparable 2))))
                (TrieNode 5 prefix_join None 2 2 False (node_A 3 (Some (Comparable 1)))
                   (node_B 4 (Some (Comparable 2)))) (=)"
proof -
  have s: "same_entries (TrieNode 2 prefix_join None 2 2 False (node_A 0 (Some (Comparable (1::nat))))
                   (node_B 1 (Some (Comparable 2))))
                (TrieNode 5 prefix_join None 2 2 False (node_A 3 (Some (Comparable 1)))
                   (node_B 4 (Some (Comparable 2)))) (=)"
    by (simp add: node_A_def node_B_def)
  from s Equal_identical_prefixes[OF s] show ?thesis by (rule conjI)
qed

section \<open>Scenario S4\<close>

text \<open>
  C9. Inserting 10.0.0.0/24 and then 10.0.1.0/24 (on 128-bit keys; they first differ at
  bit 23) into the empty trie yields an inactive root whose prefix is the 23 common bits
  followed by zeros, with height 2 and 2 entries and the two inserted nodes as its
  children; deleting either prefix returns the other child itself as the new root, with
  height 1 and 1 entry. The values and the first free address are arbitrary.
\<close>

theorem join_and_promote:
  "Insert NilNode prefix_A v1 a = Inr (node_A a v1, None, a + 1)
   \<and> Insert (node_A a v1) prefix_B v2 (a + 1)
       = Inr (TrieNode (a + 2) prefix_join None 2 2 False (node_A a v1) (node_B (a + 1) v2),
              None, a + 3)
   \<and> height (TrieNode (a + 2) prefix_join None 2 2 False (node_A a v1) (node_B (a + 1) v2)) = 2
   \<and> NumNodes (TrieNode (a + 2) prefix_join None 2 2 False (node_A a v1) (node_B (a + 1) v2)) = 2
   \<and> Delete (TrieNode (a + 2) prefix_join None 2 2 False (node_A a v1) (node_B (a + 1) v2))
        prefix_A (a + 3) = Inr (node_B (a + 1) v2, None, a + 3)
   \<and> Delete (TrieNode (a + 2) prefix_join None 2 2 False (node_A a v1) (node_B (a + 1) v2))
        prefix_B (a + 3) = Inr (node_A a v1, None, a + 3)
   \<and> height (node_A a v1) = 1 \<and> NumNodes (node_A a v1) = 1
   \<and> height (node_B (a + 1) v2) = 1 \<and> NumNodes (node_B (a + 1) v2) = 1"
  by (simp add: trie_eval mkPrefix_def Insert_def Delete_def prefix_A_def prefix_B_def
        prefix_join_def node_A_def node_B_def)

lemma new_node_simps [simp]:
  "Prefix (new_node a key data) = key" "new_node a key data \<noteq> NilNode"
  by (simp_all add: new_node_def)

section \<open>Keys below a parent\<close>

lemma key_below_parent_same:
  assumes "key_below k i kc" "length_p k = length_p K"
    "agree (unat (length_p k)) (ui (addr k)) (ui (addr K))"
  shows "key_below K i kc"
proof -
  have "agree (unat (length_p K)) (ui (addr K)) (ui (addr kc))"
    using assms by (auto simp: key_below_def intro: agree_trans[OF agree_sym])
  then show ?thesis using assms by (simp add: key_below_def)
qed

lemma child_ok_parent_same:
  assumes "child_ok k i c" "length_p k = length_p K"
    "agree (unat (length_p k)) (ui (addr k)) (ui (addr K))"
  shows "child_ok K i c"
  using assms by (cases c) (auto intro: key_below_parent_same)

lemma join_length [simp]: "length_p (join_prefix k cw) = cw"
  by (simp add: join_prefix_def)

lemma join_pbit: "pbit (ui (addr (join_prefix k cw))) i = (i < unat cw \<and> pbit (ui (addr k)) i)"
  by (simp add: join_prefix_def join_bits)

lemma join_agree: "n \<le> unat cw \<Longrightarrow> agree n (ui (addr (join_prefix k cw))) (ui (addr k))"
  by (simp add: agree_iff join_pbit)

lemma key_below_join_child:
  assumes "unat cw < unat (length_p k)" "pbit (ui (addr k)) (unat cw) = (i = 1)"
  shows "key_below (join_prefix k cw) i k"
  using assms by (simp add: key_below_def word_less_nat_alt join_agree)

lemma key_below_join_other:
  assumes "unat cw < unat (length_p K)" "agree (unat cw) (ui (addr k)) (ui (addr K))"
    "pbit (ui (addr K)) (unat cw) = (i = 1)"
  shows "key_below (join_prefix k cw) i K"
  using assms join_agree[of "unat cw" cw k]
  by (auto simp: key_below_def word_less_nat_alt intro: agree_trans)

lemma key_below_join_parent:
  assumes "key_below kp i k" "key_below kp i K"
    "pbit (ui (addr k)) (unat cw) \<noteq> pbit (ui (addr K)) (unat cw)"
  shows "key_below kp i (join_prefix k cw)"
proof -
  let ?n = "unat (length_p kp)"
  have ak: "agree ?n (ui (addr kp)) (ui (addr k))" and aK: "agree ?n (ui (addr kp)) (ui (addr K))"
    and bk: "pbit (ui (addr k)) ?n = (i = 1)" and bK: "pbit (ui (addr K)) ?n = (i = 1)"
    using assms by (simp_all add: key_below_def)
  have "\<not> unat cw < ?n"
  proof
    assume "unat cw < ?n"
    then have "pbit (ui (addr k)) (unat cw) = pbit (ui (addr kp)) (unat cw)"
      "pbit (ui (addr K)) (unat cw) = pbit (ui (addr kp)) (unat cw)"
      using ak aK by (auto dest: agree_pbit)
    then show False using assms(3) by simp
  qed
  moreover have "unat cw \<noteq> ?n" using bk bK assms(3) by auto
  ultimately have lt: "?n < unat cw" by simp
  have "agree ?n (ui (addr (join_prefix k cw))) (ui (addr k))"
    using lt by (intro join_agree) simp
  then have "agree ?n (ui (addr kp)) (ui (addr (join_prefix k cw)))"
    using ak by (blast intro: agree_trans agree_sym)
  moreover have "pbit (ui (addr (join_prefix k cw))) ?n = (i = 1)"
    using lt bk by (simp add: join_pbit)
  ultimately show ?thesis using lt by (simp add: key_below_def word_less_nat_alt)
qed

lemma key_fits_join:
  assumes "key_fits par k" "key_fits par K"
    "pbit (ui (addr k)) (unat cw) \<noteq> pbit (ui (addr K)) (unat cw)"
  shows "key_fits par (join_prefix k cw)"
proof (cases par)
  case None
  then show ?thesis by simp
next
  case (Some pi)
  then show ?thesis using assms by (cases pi) (auto intro: key_below_join_parent)
qed

lemma copyMutate_Inr:
  assumes "copyMutate me f a = Inr (x, a')" "me \<noteq> NilNode"
  shows "(x = me \<or> x = refresh (f (set_ptr a me))) \<and> a' = Suc a"
proof -
  have "set_ptr a me \<noteq> NilNode" using assms(2) by simp
  then show ?thesis using assms
    by (auto simp: copyMutate_def Let_def mutate_refresh split: sum.splits if_splits)
qed

section \<open>Insertion keeps the invariants\<close>

lemma word_of_nat_le_128:
  assumes "unat (cw :: 32 word) < unat (lw :: 32 word)" "lw \<le> 128"
  shows "cw \<le> 128"
proof -
  have "unat lw \<le> 128" using assms(2) by (rule unat_le_128)
  then have "unat cw \<le> unat (128 :: 32 word)" using assms(1) by simp
  then show ?thesis by (simp add: word_le_nat_alt)
qed

lemma fits_Some [simp]: "fits (Some (k, i)) t = child_ok k i t"
  by (cases t) auto

lemma insert_node_inv:
  assumes "wf_trie me" "cache_ok me" "fits par me"
    and "key_fits par K" "length_p K \<le> 128"
    and "insert_node me (new_node p K dat) opts a = Inr (head, err, nd, a')"
  shows "wf_trie head \<and> cache_ok head \<and> fits par head \<and> (err = None \<longrightarrow> head \<noteq> NilNode)"
  using assms
proof (induction me arbitrary: par head err nd a')
  case NilNode
  then show ?case
    by (auto simp: Let_def mutate_refresh new_node_def split: if_splits)
next
  case (TrieNode a0 k d s hh act l r)
  let ?me = "TrieNode a0 k d s hh act l r"
  let ?node = "new_node p K dat"
  have k128: "length_p k \<le> 128" and wl: "wf_trie l" and wr: "wf_trie r"
    and ol: "child_ok k 0 l" and orr: "child_ok k 1 r"
    and cl: "cache_ok l" and cr: "cache_ok r"
    and both: "act \<or> (l \<noteq> NilNode \<and> r \<noteq> NilNode)"
    and kf: "key_fits par k"
    using TrieNode.prems by simp_all
  note K128 = \<open>length_p K \<le> 128\<close> and Kf = \<open>key_fits par K\<close>
  note ins = \<open>insert_node ?me ?node opts a = Inr (head, err, nd, a')\<close>
  have me_ok: "wf_trie ?me \<and> cache_ok ?me \<and> fits par ?me \<and> (err = None \<longrightarrow> ?me \<noteq> NilNode)"
    using TrieNode.prems by simp
  from k128 K128 show ?case
  proof (cases rule: compare_cases)
    case same
    then obtain c ch where cmp: "compare k K = (compareSame, False, c, ch)" by blast
    have ch_l: "child_ok K 0 l" and ch_r: "child_ok K 1 r"
      using ol orr same(1,2) by (auto intro: child_ok_parent_same)
    show ?thesis
    proof (cases "head = ?me")
      case True
      then show ?thesis using me_ok by simp
    next
      case False
      then obtain d' where "head = refresh (TrieNode p K d' 0 0 True l r)"
        using ins cmp
        by (auto simp: Let_def mutate_refresh new_node_def split: if_splits sum.splits)
      then show ?thesis using ch_l ch_r wl wr cl cr K128 Kf by simp
    qed
  next
    case contains
    define ch :: nat where "ch = (if pbit (ui (addr K)) (unat (length_p k)) then 1 else 0)"
    let ?ch = ch
    let ?c = "if ?ch = 0 then l else r"
    have cmp: "compare k K = (compareContains, False, length_p k, ch)"
      using contains(3) by (simp add: ch_def)
    have ch01: "ch = 0 \<or> ch = 1" by (simp add: ch_def)
    have kb: "key_below k ?ch K"
      using contains(1,2) by (simp add: key_below_def ch_def)
    have fc: "fits (Some (k, ?ch)) ?c" using ol orr ch01 by auto
    have wc: "wf_trie ?c" and cc: "cache_ok ?c" using wl wr cl cr by auto
    show ?thesis
    proof (cases "insert_node ?c ?node opts a")
      case (Inl pn)
      then show ?thesis using ins cmp by simp
    next
      case (Inr res)
      then obtain nc e1 nd1 a1 where r: "insert_node ?c ?node opts a = Inr (nc, e1, nd1, a1)"
        by (cases res) auto
      have ih: "wf_trie nc \<and> cache_ok nc \<and> fits (Some (k, ?ch)) nc \<and> (e1 = None \<longrightarrow> nc \<noteq> NilNode)"
      proof (cases "?ch = 0")
        case True
        then show ?thesis
          using TrieNode.IH(1)[of "Some (k, ?ch)" nc e1 nd1 a1] wl cl fc kb K128 r by simp
      next
        case False
        then show ?thesis
          using TrieNode.IH(2)[of "Some (k, ?ch)" nc e1 nd1 a1] wr cr fc kb K128 r by simp
      qed
      show ?thesis
      proof (cases e1)
        case (Some e)
        then have "head = ?me" using ins cmp r by simp
        then show ?thesis using me_ok by simp
      next
        case None
        then have nn: "nc \<noteq> NilNode" using ih by simp
        have cpm: "copyMutate ?me (\<lambda>n. set_child ?ch nc n) a1 = Inr (head, a')"
          using ins cmp r None by (auto split: sum.splits)
        have okc: "child_ok k ?ch nc" using ih by simp
        have new_ok: "wf_trie (refresh (set_child ?ch nc (set_ptr a1 ?me))) \<and>
              cache_ok (refresh (set_child ?ch nc (set_ptr a1 ?me))) \<and>
              fits par (refresh (set_child ?ch nc (set_ptr a1 ?me)))"
          using okc ih nn k128 wl wr ol orr cl cr both kf ch01 by (auto split: if_splits)
        from copyMutate_Inr[OF cpm]
        have "head = ?me \<or> head = refresh (set_child ?ch nc (set_ptr a1 ?me))" by simp
        moreover have "refresh (set_child ?ch nc (set_ptr a1 ?me)) \<noteq> NilNode" by simp
        ultimately show ?thesis using me_ok new_ok by auto
      qed
    qed
  next
    case is_contained
    define ch :: nat where "ch = (if pbit (ui (addr k)) (unat (length_p K)) then 1 else 0)"
    let ?ch = ch
    have cmp: "compare k K = (compareIsContained, True, length_p K, ch)"
      using is_contained(3) by (simp add: ch_def)
    have ch01: "ch = 0 \<or> ch = 1" by (simp add: ch_def)
    have kb: "key_below K ?ch k"
      using is_contained(1,2) by (auto simp: key_below_def ch_def intro: agree_sym)
    show ?thesis
    proof (cases "insert_opt opts")
      case False
      then have "head = ?me" using ins cmp by simp
      then show ?thesis using me_ok by simp
    next
      case True
      then have "head = refresh (set_isActive True (set_child ?ch ?me ?node))"
        using ins cmp by (simp add: Let_def mutate_refresh)
      then show ?thesis using kb TrieNode.prems(1,2) K128 Kf ch01
        by (auto simp: new_node_def split: if_splits)
    qed
  next
    case (disjoint c)
    let ?cw = "of_nat c :: 32 word"
    let ?rev = "length_p K < length_p k"
    define ch :: nat
      where "ch = (if pbit (ui (addr (if ?rev then k else K))) c then 1 else 0)"
    let ?ch = ch
    let ?J = "join_prefix k ?cw"
    let ?leaf = "refresh (set_isActive True ?node)"
    have cmp: "compare k K = (compareDisjoint, ?rev, ?cw, ch)"
      using disjoint(6) by (simp add: ch_def)
    note uc = disjoint(5)
    show ?thesis
    proof (cases "insert_opt opts")
      case False
      then have "head = ?me" using ins cmp by simp
      then show ?thesis using me_ok by simp
    next
      case True
      have hd: "head = refresh (TrieNode a ?J None 0 0 False
                  (if (?ch = 1) \<noteq> ?rev then ?me else ?leaf)
                  (if (?ch = 1) \<noteq> ?rev then ?leaf else ?me))"
        using ins cmp True
        by (auto simp: Let_def mutate_refresh join_prefix_def)
      have J128: "length_p ?J \<le> 128"
        using word_of_nat_le_128[of ?cw "length_p k"] disjoint(1) uc k128 by simp
      have leaf: "wf_trie ?leaf" "cache_ok ?leaf" "?leaf \<noteq> NilNode"
        using K128 by (simp_all add: new_node_def)
      have differ: "pbit (ui (addr k)) (unat ?cw) \<noteq> pbit (ui (addr K)) (unat ?cw)"
        using disjoint(4) uc by simp
      have Jf: "key_fits par ?J" using kf Kf differ by (rule key_fits_join)
      show ?thesis
      proof (cases "(?ch = 1) \<noteq> ?rev")
        case sl: True
        then have bits: "\<not> pbit (ui (addr k)) c" "pbit (ui (addr K)) c"
          using disjoint(4) by (auto simp: ch_def split: if_splits)
        have "key_below ?J 0 k"
          using disjoint(1) uc bits by (intro key_below_join_child) auto
        moreover have "key_below ?J 1 K"
          using disjoint(2,3) uc bits by (intro key_below_join_other) auto
        ultimately show ?thesis using hd sl J128 leaf Jf TrieNode.prems(1,2)
          by (simp add: new_node_def)
      next
        case sl: False
        then have bits: "pbit (ui (addr k)) c" "\<not> pbit (ui (addr K)) c"
          using disjoint(4) by (auto simp: ch_def split: if_splits)
        have "key_below ?J 1 k"
          using disjoint(1) uc bits by (intro key_below_join_child) auto
        moreover have "key_below ?J 0 K"
          using disjoint(2,3) uc bits by (intro key_below_join_other) auto
        ultimately show ?thesis using hd sl J128 leaf Jf TrieNode.prems(1,2)
          by (simp add: new_node_def)
      qed
    qed
  qed
qed

section \<open>Deletion keeps the invariants\<close>

lemma fits_trans:
  assumes "fits par (TrieNode a k d s hh act l r)" "child_ok k j c"
  shows "fits par c"
proof (cases par)
  case None
  then show ?thesis by (cases c) auto
next
  case (Some pi)
  obtain kp i where pi: "pi = (kp, i)" by (cases pi) auto
  have "child_ok kp i (TrieNode a k d s hh act l r)" using assms(1) Some pi by simp
  from child_ok_trans[OF this assms(2)] show ?thesis using Some pi by simp
qed

lemma replace_child_inv:
  assumes "wf_trie (TrieNode a0 k d s hh act l r)" "cache_ok (TrieNode a0 k d s hh act l r)"
    "fits par (TrieNode a0 k d s hh act l r)"
    and "ch = 0 \<or> ch = 1" "wf_trie nc" "cache_ok nc" "child_ok k ch nc"
    and "act \<or> nc \<noteq> NilNode"
    and "copyMutate (TrieNode a0 k d s hh act l r) (\<lambda>n. set_child ch nc n) a1 = Inr (head, a2)"
  shows "wf_trie head \<and> cache_ok head \<and> fits par head \<and> head \<noteq> NilNode"
proof -
  let ?me = "TrieNode a0 k d s hh act l r"
  have new_ok: "wf_trie (refresh (set_child ch nc (set_ptr a1 ?me))) \<and>
        cache_ok (refresh (set_child ch nc (set_ptr a1 ?me))) \<and>
        fits par (refresh (set_child ch nc (set_ptr a1 ?me))) \<and>
        refresh (set_child ch nc (set_ptr a1 ?me)) \<noteq> NilNode"
    using assms(1-8) by (auto split: if_splits)
  from copyMutate_Inr[OF assms(9)]
  have "head = ?me \<or> head = refresh (set_child ch nc (set_ptr a1 ?me))" by simp
  then show ?thesis using new_ok assms(1-3) by auto
qed

lemma del_inv:
  assumes "wf_trie me" "cache_ok me" "fits par me" "length_p key \<le> 128"
    and "del me key opts a = Inr (head, err, a')"
  shows "wf_trie head \<and> cache_ok head \<and> fits par head"
  using assms
proof (induction me arbitrary: par head err a')
  case NilNode
  then show ?case by (auto split: if_splits)
next
  case (TrieNode a0 k d s hh act l r)
  let ?me = "TrieNode a0 k d s hh act l r"
  have k128: "length_p k \<le> 128" and wl: "wf_trie l" and wr: "wf_trie r"
    and ol: "child_ok k 0 l" and orr: "child_ok k 1 r"
    and cl: "cache_ok l" and cr: "cache_ok r"
    and both: "act \<or> (l \<noteq> NilNode \<and> r \<noteq> NilNode)"
    using TrieNode.prems by simp_all
  note K128 = \<open>length_p key \<le> 128\<close>
  note dl = \<open>del ?me key opts a = Inr (head, err, a')\<close>
  note fm = \<open>fits par ?me\<close>
  have me_ok: "wf_trie ?me \<and> cache_ok ?me \<and> fits par ?me"
    using TrieNode.prems by simp
  have l_ok: "wf_trie l \<and> cache_ok l \<and> fits par l"
    using wl cl fits_trans[OF fm ol] by simp
  have r_ok: "wf_trie r \<and> cache_ok r \<and> fits par r"
    using wr cr fits_trans[OF fm orr] by simp
  from k128 K128 show ?case
  proof (cases rule: compare_cases)
    case same
    then obtain c ch where cmp: "compare k key = (compareSame, False, c, ch)" by blast
    show ?thesis
    proof (cases "flatten opts \<or> l = NilNode \<or> r = NilNode")
      case True
      then have "head = NilNode \<or> head = l \<or> head = r"
        using dl cmp by (auto split: if_splits)
      then show ?thesis using l_ok r_ok by auto
    next
      case False
      then have cpm: "copyMutate ?me (\<lambda>n. set_Data None (set_isActive False n)) a
                        = Inr (head, a')"
        using dl cmp by (auto split: sum.splits)
      have new_ok: "wf_trie (refresh (set_Data None (set_isActive False (set_ptr a ?me)))) \<and>
          cache_ok (refresh (set_Data None (set_isActive False (set_ptr a ?me)))) \<and>
          fits par (refresh (set_Data None (set_isActive False (set_ptr a ?me))))"
        using False me_ok by simp
      from copyMutate_Inr[OF cpm]
      have "head = ?me \<or> head = refresh (set_Data None (set_isActive False (set_ptr a ?me)))"
        by simp
      then show ?thesis using me_ok new_ok by auto
    qed
  next
    case contains
    define ch :: nat where "ch = (if pbit (ui (addr key)) (unat (length_p k)) then 1 else 0)"
    let ?c = "if ch = 0 then l else r"
    have cmp: "compare k key = (compareContains, False, length_p k, ch)"
      using contains(3) by (simp add: ch_def)
    have ch01: "ch = 0 \<or> ch = 1" by (simp add: ch_def)
    have fc: "fits (Some (k, ch)) ?c" using ol orr ch01 by auto
    obtain nc e1 a1 where r: "del ?c key opts a = Inr (nc, e1, a1)"
      using dl cmp by (cases "del ?c key opts a") auto
    have ih: "wf_trie nc \<and> cache_ok nc \<and> fits (Some (k, ch)) nc"
    proof (cases "ch = 0")
      case True
      then show ?thesis
        using TrieNode.IH(1)[of "Some (k, ch)" nc e1 a1] wl cl fc K128 r by simp
    next
      case False
      then show ?thesis
        using TrieNode.IH(2)[of "Some (k, ch)" nc e1 a1] wr cr fc K128 r by simp
    qed
    show ?thesis
    proof (cases e1)
      case (Some e)
      then have "head = ?me" using dl cmp r by simp
      then show ?thesis using me_ok by simp
    next
      case None
      show ?thesis
      proof (cases "nc = NilNode \<and> \<not> act")
        case True
        then have "head = get_child ?me (reverseChild ch)" using dl cmp r None by simp
        then have "head = l \<or> head = r" by auto
        then show ?thesis using l_ok r_ok by auto
      next
        case False
        then have "copyMutate ?me (\<lambda>n. set_child ch nc n) a1 = Inr (head, a')"
          using dl cmp r None by (auto split: sum.splits)
        from replace_child_inv[OF TrieNode.prems(1,2,3) ch01 _ _ _ _ this]
        show ?thesis using ih False by auto
      qed
    qed
  next
    case is_contained
    then have "head = NilNode \<or> head = ?me" using dl by (auto split: if_splits)
    then show ?thesis using me_ok by auto
  next
    case (disjoint c)
    then have "head = ?me" using dl by simp
    then show ?thesis using me_ok by simp
  qed
qed

section \<open>GetOrInsert keeps the invariants\<close>

lemma deferred_found:
  "result \<noteq> NilNode \<Longrightarrow>
     GetOrInsert_deferred me key data None (head, result) a = Inr (head, result, a)"
  by (simp add: GetOrInsert_deferred_def)

lemma deferred_panicking:
  "GetOrInsert_deferred me key data (Some pn) ret a = Inr x \<Longrightarrow> False"
  by (auto simp: GetOrInsert_deferred_def split: prod.splits sum.splits option.splits
        if_splits)

lemma deferred_inv:
  assumes "wf_trie me" "cache_ok me" "fits par me" "key_fits par K" "length_p K \<le> 128"
    and "r0 \<noteq> NilNode \<longrightarrow> wf_trie h0 \<and> cache_ok h0 \<and> fits par h0 \<and> h0 \<noteq> NilNode"
    and "GetOrInsert_deferred me K dat None (h0, r0) a = Inr (head, res, a')"
  shows "wf_trie head \<and> cache_ok head \<and> fits par head \<and> head \<noteq> NilNode"
proof (cases "r0 = NilNode")
  case True
  then obtain nd where
    "insert_node me (new_node a K dat)
       \<lparr>insert_opt = True, update_opt = False, eq_opt = None\<rparr> (Suc a) = Inr (head, None, nd, a')"
    using assms(7)
    by (auto simp: GetOrInsert_deferred_def split: sum.splits option.splits)
  from insert_node_inv[OF assms(1-5) this] show ?thesis by simp
next
  case False
  then show ?thesis using assms(6,7) by (simp add: deferred_found)
qed

lemma GetOrInsert_inv:
  assumes "wf_trie me" "cache_ok me" "fits par me" "key_fits par K" "length_p K \<le> 128"
    and "GetOrInsert me K dat a = Inr (head, res, a')"
  shows "wf_trie head \<and> cache_ok head \<and> fits par head \<and> head \<noteq> NilNode"
  using assms
proof (induction me arbitrary: par head res a a')
  case NilNode
  then show ?case
    using deferred_inv[of NilNode par K NilNode NilNode dat a head res a'] by simp
next
  case (TrieNode a0 k d s hh act l r)
  let ?me = "TrieNode a0 k d s hh act l r"
  have k128: "length_p k \<le> 128" and wl: "wf_trie l" and wr: "wf_trie r"
    and ol: "child_ok k 0 l" and orr: "child_ok k 1 r"
    and cl: "cache_ok l" and cr: "cache_ok r"
    using TrieNode.prems by simp_all
  note K128 = \<open>length_p K \<le> 128\<close> and Kf = \<open>key_fits par K\<close>
  note g = \<open>GetOrInsert ?me K dat a = Inr (head, res, a')\<close>
  note pre = TrieNode.prems(1-5)
  have nil_case: ?case
    if "GetOrInsert_deferred ?me K dat None (NilNode, NilNode) a = Inr (head, res, a')"
    using deferred_inv[OF pre _ that] by simp
  show ?case
  proof (cases "length_p K < length_p k")
    case True
    then show ?thesis using g nil_case by simp
  next
    case len: False
    show ?thesis
    proof (cases "agree (unat (length_p k)) (ui (addr k)) (ui (addr K))")
      case False
      then show ?thesis using g len contains_differ[OF k128 False] nil_case by simp
    next
      case ag: True
      note cm = contains_match[OF k128 ag]
      show ?thesis
      proof (cases "length_p k = length_p K")
        case True
        show ?thesis
        proof (cases act)
          case False
          then show ?thesis using g len cm True nil_case by simp
        next
          case act: True
          then have "GetOrInsert_deferred ?me K dat None (?me, ?me) a = Inr (head, res, a')"
            using g len cm True by simp
          from deferred_inv[OF pre _ this] TrieNode.prems show ?thesis by simp
        qed
      next
        case ne: False
        define ch :: nat where "ch = (if pbit (ui (addr K)) (unat (length_p k)) then 1 else 0)"
        let ?c = "if ch = 0 then l else r"
        have ch01: "ch = 0 \<or> ch = 1" by (simp add: ch_def)
        have cm': "contains k K = (True, False, length_p k, ch)"
          using cm ne by (simp add: ch_def)
        have lt: "length_p k < length_p K" using len ne by simp
        have kb: "key_below k ch K" using lt ag by (simp add: key_below_def ch_def)
        have fc: "fits (Some (k, ch)) ?c" using ol orr ch01 by auto
        show ?thesis
        proof (cases "GetOrInsert ?c K dat a")
          case (Inl pa)
          then show ?thesis using g len cm'
            by (cases pa) (auto dest: deferred_panicking)
        next
          case (Inr res1)
          then obtain nc r1 a1 where r: "GetOrInsert ?c K dat a = Inr (nc, r1, a1)"
            by (cases res1) auto
          have ih: "wf_trie nc \<and> cache_ok nc \<and> fits (Some (k, ch)) nc \<and> nc \<noteq> NilNode"
          proof (cases "ch = 0")
            case True
            then show ?thesis
              using TrieNode.IH(1)[of "Some (k, ch)" a nc r1 a1] wl cl fc kb K128 r by simp
          next
            case False
            then show ?thesis
              using TrieNode.IH(2)[of "Some (k, ch)" a nc r1 a1] wr cr fc kb K128 r by simp
          qed
          show ?thesis
          proof (cases "copyMutate ?me (\<lambda>n. set_child ch nc n) a1")
            case (Inl pa)
            then show ?thesis using g len cm' r
              by (cases pa) (auto dest: deferred_panicking)
          next
            case (Inr hc)
            then obtain h0 a2 where cpm: "copyMutate ?me (\<lambda>n. set_child ch nc n) a1 = Inr (h0, a2)"
              by (cases hc) auto
            have h0: "wf_trie h0 \<and> cache_ok h0 \<and> fits par h0 \<and> h0 \<noteq> NilNode"
              using replace_child_inv[OF TrieNode.prems(1,2,3) ch01 _ _ _ _ cpm] ih by auto
            have "GetOrInsert_deferred ?me K dat None (h0, r1) a2 = Inr (head, res, a')"
              using g len cm' r cpm by simp
            from deferred_inv[OF pre _ this] h0 show ?thesis by simp
          qed
        qed
      qed
    qed
  qed
qed

section \<open>Sequences of operations\<close>

lemma fits_None [simp]: "fits None t"
  by (cases t) auto

lemma apply_operation_inv:
  assumes "wf_trie root" "cache_ok root" "length_p (op_key op) \<le> 128"
    and "apply_operation eq op (root, a) = (pn, root', a')"
  shows "wf_trie root' \<and> cache_ok root'"
proof (cases op)
  case (OpInsert k v)
  show ?thesis
  proof (cases "insert_node root (new_node a k v)
      \<lparr>insert_opt = True, update_opt = False, eq_opt = None\<rparr> (Suc a)")
    case (Inl pa)
    then show ?thesis using assms OpInsert by (cases pa) (auto simp: Insert_def)
  next
    case (Inr res)
    then obtain head err nd a1 where i: "insert_node root (new_node a k v)
      \<lparr>insert_opt = True, update_opt = False, eq_opt = None\<rparr> (Suc a) = Inr (head, err, nd, a1)"
      by (cases res) auto
    have "wf_trie head \<and> cache_ok head"
      using insert_node_inv[OF assms(1,2) _ _ _ i, of None] assms(3) OpInsert by simp
    then show ?thesis using OpInsert i assms
      by (auto simp: Insert_def TableX_mutate_def split: if_splits)
  qed
next
  case (OpUpdate k v)
  show ?thesis
  proof (cases "insert_node root (new_node a k v)
      \<lparr>insert_opt = False, update_opt = True, eq_opt = Some eq\<rparr> (Suc a)")
    case (Inl pa)
    then show ?thesis using assms OpUpdate by (cases pa) (auto simp: Update_def)
  next
    case (Inr res)
    then obtain head err nd a1 where i: "insert_node root (new_node a k v)
      \<lparr>insert_opt = False, update_opt = True, eq_opt = Some eq\<rparr> (Suc a) = Inr (head, err, nd, a1)"
      by (cases res) auto
    have "wf_trie head \<and> cache_ok head"
      using insert_node_inv[OF assms(1,2) _ _ _ i, of None] assms(3) OpUpdate by simp
    then show ?thesis using OpUpdate i assms
      by (auto simp: Update_def TableX_mutate_def split: if_splits)
  qed
next
  case (OpInsertOrUpdate k v)
  show ?thesis
  proof (cases "insert_node root (new_node a k v)
      \<lparr>insert_opt = True, update_opt = True, eq_opt = Some eq\<rparr> (Suc a)")
    case (Inl pa)
    then show ?thesis using assms OpInsertOrUpdate by (cases pa) (auto simp: InsertOrUpdate_def)
  next
    case (Inr res)
    then obtain head err nd a1 where i: "insert_node root (new_node a k v)
      \<lparr>insert_opt = True, update_opt = True, eq_opt = Some eq\<rparr> (Suc a) = Inr (head, err, nd, a1)"
      by (cases res) auto
    have "wf_trie head \<and> cache_ok head"
      using insert_node_inv[OF assms(1,2) _ _ _ i, of None] assms(3) OpInsertOrUpdate by simp
    then show ?thesis using OpInsertOrUpdate i assms
      by (auto simp: InsertOrUpdate_def TableX_mutate_def split: if_splits option.splits)
  qed
next
  case (OpGetOrInsert k v)
  show ?thesis
  proof (cases "GetOrInsert root k v a")
    case (Inl pa)
    then show ?thesis using assms OpGetOrInsert by (cases pa) auto
  next
    case (Inr res)
    then obtain head nd a1 where g: "GetOrInsert root k v a = Inr (head, nd, a1)"
      by (cases res) auto
    have "wf_trie head \<and> cache_ok head"
      using GetOrInsert_inv[OF assms(1,2) _ _ _ g, of None] assms(3) OpGetOrInsert by simp
    then show ?thesis using OpGetOrInsert g assms
      by (auto simp: TableX_mutate_def split: if_splits)
  qed
next
  case (OpRemove k)
  show ?thesis
  proof (cases "del root k \<lparr>flatten = False\<rparr> a")
    case (Inl pa)
    then show ?thesis using assms OpRemove by (cases pa) (auto simp: Delete_def)
  next
    case (Inr res)
    then obtain head err a1 where d: "del root k \<lparr>flatten = False\<rparr> a = Inr (head, err, a1)"
      by (cases res) auto
    have "wf_trie head \<and> cache_ok head"
      using del_inv[OF assms(1,2) _ _ d, of None] assms(3) OpRemove by simp
    then show ?thesis using OpRemove d assms
      by (auto simp: Delete_def TableX_mutate_def split: if_splits)
  qed
qed

lemma run_operations_inv:
  assumes "wf_trie root" "cache_ok root" "\<forall>op \<in> set ops. length_p (op_key op) \<le> 128"
    and "run_operations eq ops (root, a) = (pn, root', a')"
  shows "wf_trie root' \<and> cache_ok root'"
  using assms
proof (induction ops arbitrary: root a)
  case Nil
  then show ?case by simp
next
  case (Cons op ops)
  obtain p1 r1 a1 where s: "apply_operation eq op (root, a) = (p1, r1, a1)"
    by (cases "apply_operation eq op (root, a)") auto
  have i: "wf_trie r1" "cache_ok r1"
    using apply_operation_inv[OF Cons.prems(1,2) _ s] Cons.prems(3) by auto
  show ?case
  proof (cases p1)
    case None
    then show ?thesis using Cons.IH[OF i, of a1] Cons.prems(3,4) s by simp
  next
    case (Some q)
    then show ?thesis using Cons.prems(4) s i by auto
  qed
qed

section \<open>Values that can be compared\<close>

lemma iface_eq_total:
  "comparable_data d \<or> comparable_data d' \<Longrightarrow> \<exists>b. iface_eq d d' = Inr b"
  by (induction d d' rule: iface_eq.induct) auto

lemma struct_eq_total:
  assumes "comparable_data (Data y)" "y \<noteq> NilNode"
  shows "\<exists>b. struct_eq x y = Inr b"
proof (cases x)
  case NilNode
  then show ?thesis by (simp add: exI[of _ False])
next
  case (TrieNode a k d s hh act l r)
  obtain a' k' d' s' hh' act' l' r' where y: "y = TrieNode a' k' d' s' hh' act' l' r'"
    using assms(2) by (cases y) auto
  obtain b where "iface_eq d d' = Inr b" using iface_eq_total[of d d'] assms(1) y by auto
  then show ?thesis using TrieNode y by (auto intro: exI[of _ False])
qed

lemma copyMutate_total:
  assumes "comparable_data d"
  shows "\<exists>x. copyMutate (TrieNode a0 k d s hh act l r) f a = Inr (x, Suc a)"
proof -
  obtain b where "struct_eq (mutate (set_ptr a (TrieNode a0 k d s hh act l r)) f)
                    (TrieNode a0 k d s hh act l r) = Inr b"
    using struct_eq_total[of "TrieNode a0 k d s hh act l r"] assms by auto
  then show ?thesis by (simp add: copyMutate_def Let_def)
qed

lemma all_comparable_simps [simp]:
  "all_comparable (set_ptr a t) = all_comparable t"
  "all_comparable (set_isActive b t) = all_comparable t"
  "all_comparable (refresh t) = all_comparable t"
  "all_comparable (new_node a key v) = comparable_data v"
  by (cases t; simp add: new_node_def)+

lemma all_comparable_set_child:
  "all_comparable t \<Longrightarrow> all_comparable c \<Longrightarrow> all_comparable (set_child ch c t)"
  by (cases t) auto

lemma all_comparable_set_children:
  "comparable_data (Data t) \<Longrightarrow> t \<noteq> NilNode \<Longrightarrow> all_comparable l \<Longrightarrow> all_comparable r
     \<Longrightarrow> all_comparable (set_children l r t)"
  by (cases t) auto

lemma all_comparable_set_Data:
  "all_comparable t \<Longrightarrow> comparable_data d \<Longrightarrow> all_comparable (set_Data d t)"
  by (cases t) auto

lemma copyMutate_comparable:
  assumes "copyMutate me f a = Inr (x, a')" "all_comparable me"
    "all_comparable (f (set_ptr a me))"
  shows "all_comparable x"
proof (cases "me = NilNode")
  case True
  then show ?thesis using assms by (simp add: copyMutate_def)
next
  case False
  from copyMutate_Inr[OF assms(1) False] show ?thesis using assms(2,3) by auto
qed

lemma insert_node_comparable:
  assumes "insert_node me (new_node p K v) opts a = Inr (head, err, nd, a')"
    and "all_comparable me" "comparable_data v"
  shows "all_comparable head"
  using assms
proof (induction me arbitrary: head err nd a')
  case NilNode
  then show ?case
    by (auto simp: Let_def mutate_refresh split: if_splits)
next
  case (TrieNode a0 k d s hh act l r)
  let ?me = "TrieNode a0 k d s hh act l r"
  let ?node = "new_node p K v"
  note ins = TrieNode.prems(1)
  have cl: "all_comparable l" and cr: "all_comparable r" and cd: "comparable_data d"
    using TrieNode.prems(2) by simp_all
  obtain result rev cw ch where cmp: "compare k K = (result, rev, cw, ch)"
    by (cases "compare k K") auto
  show ?case
  proof (cases result)
    case compareSame
    show ?thesis
    proof (cases "head = ?me")
      case True
      then show ?thesis using TrieNode.prems(2) by simp
    next
      case False
      then obtain d' where "head = refresh (TrieNode p K d' 0 0 True l r)"
          and "d' = d \<or> d' = v"
        using ins cmp compareSame
        by (auto simp: Let_def mutate_refresh new_node_def split: if_splits sum.splits)
      then show ?thesis using cl cr cd TrieNode.prems(3) by auto
    qed
  next
    case compareContains
    let ?c = "if ch = 0 then l else r"
    show ?thesis
    proof (cases "insert_node ?c ?node opts a")
      case (Inl pa)
      then show ?thesis using ins cmp compareContains by simp
    next
      case (Inr res)
      then obtain nc e1 nd1 a1 where r: "insert_node ?c ?node opts a = Inr (nc, e1, nd1, a1)"
        by (cases res) auto
      have ih: "all_comparable nc"
        using TrieNode.IH(1)[of nc e1 nd1 a1] TrieNode.IH(2)[of nc e1 nd1 a1] r cl cr
          TrieNode.prems(3)
        by (cases "ch = 0") auto
      show ?thesis
      proof (cases e1)
        case (Some e)
        then have "head = ?me" using ins cmp compareContains r by simp
        then show ?thesis using TrieNode.prems(2) by simp
      next
        case None
        then have cpm: "copyMutate ?me (\<lambda>n. set_child ch nc n) a1 = Inr (head, a')"
          using ins cmp compareContains r by (auto split: sum.splits)
        show ?thesis
          by (rule copyMutate_comparable[OF cpm TrieNode.prems(2)])
             (use ih TrieNode.prems(2) in \<open>auto intro: all_comparable_set_child\<close>)
      qed
    qed
  next
    case compareIsContained
    then have "head = ?me \<or> head = refresh (set_isActive True (set_child ch ?me ?node))"
      using ins cmp by (auto simp: Let_def mutate_refresh split: if_splits)
    then show ?thesis using TrieNode.prems(2,3)
      by (auto simp: new_node_def)
  next
    case compareDisjoint
    then have "head = ?me \<or>
       head = refresh (TrieNode a (join_prefix k cw) None 0 0 False
                  (if (ch = 1) \<noteq> rev then ?me else refresh (set_isActive True ?node))
                  (if (ch = 1) \<noteq> rev then refresh (set_isActive True ?node) else ?me))"
      using ins cmp
      by (auto simp: Let_def mutate_refresh join_prefix_def split: if_splits)
    then show ?thesis using TrieNode.prems(2,3) by auto
  qed
qed

lemma insert_node_total_comparable:
  assumes "all_comparable me" "eq_opt opts \<noteq> None \<or> \<not> update_opt opts"
  shows "\<exists>res. insert_node me node opts a = Inr res"
  using assms(1)
proof (induction me)
  case NilNode
  show ?case by (simp add: Let_def)
next
  case (TrieNode p k d s hh act l r)
  show ?case
  proof (cases "compare k (Prefix node)")
    case (fields result reversed common child)
    show ?thesis
    proof (cases result)
      case compareSame
      then show ?thesis using fields assms(2) by (auto simp: call_eq_def Let_def)
    next
      case compareContains
      obtain nc e1 nd1 a1
        where r: "insert_node (if child = 0 then l else r) node opts a = Inr (nc, e1, nd1, a1)"
        using TrieNode.IH TrieNode.prems by (cases "child = 0") auto
      obtain x where "copyMutate (TrieNode p k d s hh act l r) (\<lambda>n. set_child child nc n) a1
                        = Inr (x, Suc a1)"
        using copyMutate_total[of d p k s hh act l r "\<lambda>n. set_child child nc n" a1]
          TrieNode.prems by auto
      then show ?thesis using fields compareContains r by simp
    next
      case compareIsContained
      then show ?thesis using fields by (simp add: Let_def)
    next
      case compareDisjoint
      then show ?thesis using fields by (simp add: Let_def)
    qed
  qed
qed

lemma insert_upsert_no_error:
  "insert_node me node \<lparr>insert_opt = True, update_opt = True, eq_opt = eqo\<rparr> a
     = Inr (head, err, nd, a') \<Longrightarrow> err = None"
proof (induction me arbitrary: head err a')
  case NilNode
  then show ?case by (simp add: Let_def)
next
  case (TrieNode p k d s hh act l r)
  then show ?case
    by (auto simp: Let_def split: prod.splits comparison.splits if_splits sum.splits)
qed

lemma del_total_comparable:
  assumes "all_comparable me"
  shows "\<exists>res. del me key opts a = Inr res"
  using assms
proof (induction me)
  case NilNode
  show ?case by simp
next
  case (TrieNode p k d s hh act l r)
  show ?case
  proof (cases "compare k key")
    case (fields result reversed common child)
    have cm: "\<exists>x. copyMutate (TrieNode p k d s hh act l r) f a1 = Inr (x, Suc a1)" for f a1
      using copyMutate_total[of d] TrieNode.prems by auto
    show ?thesis
    proof (cases result)
      case compareSame
      obtain x where "copyMutate (TrieNode p k d s hh act l r)
                        (\<lambda>n. set_Data None (set_isActive False n)) a = Inr (x, Suc a)"
        using cm by blast
      then show ?thesis using fields compareSame by simp
    next
      case compareContains
      obtain nc e1 a1
        where r: "del (if child = 0 then l else r) key opts a = Inr (nc, e1, a1)"
        using TrieNode.IH TrieNode.prems by (cases "child = 0") auto
      obtain x where "copyMutate (TrieNode p k d s hh act l r) (\<lambda>n. set_child child nc n) a1
                        = Inr (x, Suc a1)"
        using cm by blast
      then show ?thesis using fields compareContains r by simp
    next
      case compareIsContained
      then show ?thesis using fields by simp
    next
      case compareDisjoint
      then show ?thesis using fields by simp
    qed
  qed
qed

lemma all_comparable_nodes: "all_comparable t \<Longrightarrow> n \<in> set (nodes t) \<Longrightarrow> all_comparable n"
  by (induction t) auto

lemma del_comparable:
  assumes "del me key opts a = Inr (head, err, a')" "all_comparable me"
  shows "all_comparable head"
  using assms
proof (induction me arbitrary: head err a')
  case NilNode
  then show ?case by (auto split: if_splits)
next
  case (TrieNode a0 k d s hh act l r)
  let ?me = "TrieNode a0 k d s hh act l r"
  note dl = TrieNode.prems(1)
  have cl: "all_comparable l" and cr: "all_comparable r" and cd: "comparable_data d"
    using TrieNode.prems(2) by simp_all
  obtain result rev cw ch where cmp: "compare k key = (result, rev, cw, ch)"
    by (cases "compare k key") auto
  show ?case
  proof (cases result)
    case compareSame
    show ?thesis
    proof (cases "flatten opts \<or> l = NilNode \<or> r = NilNode")
      case True
      then have "head = NilNode \<or> head = l \<or> head = r"
        using dl cmp compareSame by (auto split: if_splits)
      then show ?thesis using cl cr by auto
    next
      case False
      then have cpm: "copyMutate ?me (\<lambda>n. set_Data None (set_isActive False n)) a
                        = Inr (head, a')"
        using dl cmp compareSame by (auto split: sum.splits)
      show ?thesis
        by (rule copyMutate_comparable[OF cpm TrieNode.prems(2)]) (use cl cr in auto)
    qed
  next
    case compareContains
    let ?c = "if ch = 0 then l else r"
    obtain nc e1 a1 where r: "del ?c key opts a = Inr (nc, e1, a1)"
      using dl cmp compareContains by (cases "del ?c key opts a") auto
    have ih: "all_comparable nc"
      using TrieNode.IH(1)[of nc e1 a1] TrieNode.IH(2)[of nc e1 a1] r cl cr
      by (cases "ch = 0") auto
    show ?thesis
    proof (cases e1)
      case (Some e)
      then have "head = ?me" using dl cmp compareContains r by simp
      then show ?thesis using TrieNode.prems(2) by simp
    next
      case None
      show ?thesis
      proof (cases "nc = NilNode \<and> \<not> act")
        case True
        then have "head = get_child ?me (reverseChild ch)"
          using dl cmp compareContains r None by simp
        then have "head = l \<or> head = r" by auto
        then show ?thesis using cl cr by auto
      next
        case False
        then have cpm: "copyMutate ?me (\<lambda>n. set_child ch nc n) a1 = Inr (head, a')"
          using dl cmp compareContains r None by (auto split: sum.splits)
        show ?thesis
          by (rule copyMutate_comparable[OF cpm TrieNode.prems(2)])
             (use ih TrieNode.prems(2) in \<open>auto intro: all_comparable_set_child\<close>)
      qed
    qed
  next
    case compareIsContained
    then have "head = NilNode \<or> head = ?me" using dl cmp by (auto split: if_splits)
    then show ?thesis using TrieNode.prems(2) by auto
  next
    case compareDisjoint
    then have "head = ?me" using dl cmp by simp
    then show ?thesis using TrieNode.prems(2) by simp
  qed
qed

lemma insert_only_ok:
  assumes "fst (compare k (Prefix node)) \<noteq> compareContains"
    and "fst (compare k (Prefix node)) = compareSame \<longrightarrow> \<not> act"
    and "node \<noteq> NilNode"
  shows "\<exists>nh nd a'. insert_node (TrieNode p k d s hh act l r) node
            \<lparr>insert_opt = True, update_opt = False, eq_opt = None\<rparr> a = Inr (nh, None, nd, a')
            \<and> nd \<noteq> NilNode"
proof (cases "compare k (Prefix node)")
  case (fields result reversed common child)
  then show ?thesis using assms by (cases result) (simp_all add: Let_def mutate_nonnil)
qed

lemma deferred_total:
  assumes "result = NilNode \<Longrightarrow> \<exists>nh nd a'. insert_node me (new_node a key data)
             \<lparr>insert_opt = True, update_opt = False, eq_opt = None\<rparr> (Suc a)
               = Inr (nh, None, nd, a') \<and> nd \<noteq> NilNode"
  shows "\<exists>head res a'. GetOrInsert_deferred me key data None (head0, result) a
           = Inr (head, res, a') \<and> res \<noteq> NilNode"
proof (cases "result = NilNode")
  case True
  then show ?thesis using assms by (auto simp: GetOrInsert_deferred_def)
next
  case False
  then show ?thesis by (simp add: deferred_found)
qed

lemma GetOrInsert_total_comparable:
  "all_comparable me \<Longrightarrow>
     \<exists>head result a'. GetOrInsert me key data a = Inr (head, result, a') \<and> result \<noteq> NilNode"
proof (induction me arbitrary: a)
  case NilNode
  show ?case by (simp add: GetOrInsert_deferred_def Let_def mutate_nonnil)
next
  case (TrieNode p k d s hh act l r)
  let ?me = "TrieNode p k d s hh act l r"
  let ?dfr = "\<exists>head res a'. GetOrInsert_deferred ?me key data None (NilNode, NilNode) a
                 = Inr (head, res, a') \<and> res \<noteq> NilNode"
  show ?case
  proof (cases "length_p key < length_p k")
    case True
    have ?dfr
      by (rule deferred_total, rule insert_only_ok) (use compare_reversed[OF True] in auto)
    then show ?thesis using True by simp
  next
    case False
    obtain m e c ch where c: "contains k key = (m, e, c, ch)"
      by (cases "contains k key") auto
    show ?thesis
    proof (cases m)
      case nm: False
      have ?dfr
        by (rule deferred_total, rule insert_only_ok)
           (use compare_not_matches[OF False] c nm in auto)
      then show ?thesis using False c nm by simp
    next
      case m: True
      show ?thesis
      proof (cases e)
        case ne: False
        have "\<exists>nc res a1. GetOrInsert (if ch = 0 then l else r) key data a = Inr (nc, res, a1)
                \<and> res \<noteq> NilNode"
          using TrieNode.IH(1)[of a] TrieNode.IH(2)[of a] TrieNode.prems by (cases "ch = 0") auto
        then obtain nc res a1
          where r: "GetOrInsert (if ch = 0 then l else r) key data a = Inr (nc, res, a1)"
            and res: "res \<noteq> NilNode"
          by blast
        obtain head where cm: "copyMutate ?me (\<lambda>n. set_child ch nc n) a1 = Inr (head, Suc a1)"
          using copyMutate_total[of d p k s hh act l r "\<lambda>n. set_child ch nc n" a1]
            TrieNode.prems by auto
        show ?thesis using False c m ne r cm res
          by (simp add: deferred_found)
      next
        case ex: True
        show ?thesis
        proof (cases act)
          case True
          then show ?thesis using False c m ex by (simp add: deferred_found)
        next
          case na: False
          have ?dfr
            by (rule deferred_total, rule insert_only_ok)
               (use compare_exact[OF False] c m ex na in auto)
          then show ?thesis using False c m ex na by simp
        qed
      qed
    qed
  qed
qed

lemma deferred_comparable:
  assumes "all_comparable me" "comparable_data dat"
    and "r0 \<noteq> NilNode \<longrightarrow> all_comparable h0"
    and "GetOrInsert_deferred me K dat None (h0, r0) a = Inr (head, res, a')"
  shows "all_comparable head"
proof (cases "r0 = NilNode")
  case True
  then obtain nd where
    "insert_node me (new_node a K dat)
       \<lparr>insert_opt = True, update_opt = False, eq_opt = None\<rparr> (Suc a) = Inr (head, None, nd, a')"
    using assms(4)
    by (auto simp: GetOrInsert_deferred_def split: sum.splits option.splits)
  from insert_node_comparable[OF this assms(1,2)] show ?thesis .
next
  case False
  then show ?thesis using assms(3,4) by (simp add: deferred_found)
qed

lemma GetOrInsert_comparable:
  assumes "GetOrInsert me K dat a = Inr (head, res, a')" "all_comparable me"
    "comparable_data dat"
  shows "all_comparable head"
  using assms
proof (induction me arbitrary: head res a a')
  case NilNode
  then show ?case
    using deferred_comparable[of NilNode dat NilNode NilNode K a head res a'] by simp
next
  case (TrieNode a0 k d s hh act l r)
  let ?me = "TrieNode a0 k d s hh act l r"
  note g = TrieNode.prems(1) and cme = TrieNode.prems(2) and cdat = TrieNode.prems(3)
  have cl: "all_comparable l" and cr: "all_comparable r" using cme by simp_all
  have nil_case: ?case
    if "GetOrInsert_deferred ?me K dat None (NilNode, NilNode) a = Inr (head, res, a')"
    using deferred_comparable[OF cme cdat _ that] by simp
  show ?case
  proof (cases "length_p K < length_p k")
    case True
    then show ?thesis using g nil_case by simp
  next
    case len: False
    obtain m e c ch where c: "contains k K = (m, e, c, ch)"
      by (cases "contains k K") auto
    show ?thesis
    proof (cases m)
      case False
      then show ?thesis using g len c nil_case by simp
    next
      case m: True
      show ?thesis
      proof (cases e)
        case ex: True
        show ?thesis
        proof (cases act)
          case False
          then show ?thesis using g len c m ex nil_case by simp
        next
          case True
          then have "GetOrInsert_deferred ?me K dat None (?me, ?me) a = Inr (head, res, a')"
            using g len c m ex by simp
          from deferred_comparable[OF cme cdat _ this] cme show ?thesis by simp
        qed
      next
        case ne: False
        let ?c = "if ch = 0 then l else r"
        show ?thesis
        proof (cases "GetOrInsert ?c K dat a")
          case (Inl pa)
          then show ?thesis using g len c m ne
            by (cases pa) (auto dest: deferred_panicking)
        next
          case (Inr res1)
          then obtain nc r1 a1 where r: "GetOrInsert ?c K dat a = Inr (nc, r1, a1)"
            by (cases res1) auto
          have ih: "all_comparable nc"
            using TrieNode.IH(1)[of a nc r1 a1] TrieNode.IH(2)[of a nc r1 a1] r cl cr cdat
            by (cases "ch = 0") auto
          show ?thesis
          proof (cases "copyMutate ?me (\<lambda>n. set_child ch nc n) a1")
            case (Inl pa)
            then show ?thesis using g len c m ne r
              by (cases pa) (auto dest: deferred_panicking)
          next
            case (Inr hc)
            then obtain h0 a2 where cpm: "copyMutate ?me (\<lambda>n. set_child ch nc n) a1 = Inr (h0, a2)"
              by (cases hc) auto
            have h0: "all_comparable h0"
              by (rule copyMutate_comparable[OF cpm cme])
                 (use ih cme in \<open>auto intro: all_comparable_set_child\<close>)
            have "GetOrInsert_deferred ?me K dat None (h0, r1) a2 = Inr (head, res, a')"
              using g len c m ne r cpm by simp
            from deferred_comparable[OF cme cdat _ this] h0 show ?thesis by simp
          qed
        qed
      qed
    qed
  qed
qed

section \<open>Tables of comparable values\<close>

lemma TableX_mutate_comparable:
  "all_comparable root \<Longrightarrow> all_comparable nh \<Longrightarrow> all_comparable (TableX_mutate root ok nh)"
  by (simp add: TableX_mutate_def)

lemma apply_operation_comparable:
  assumes "all_comparable root" "comparable_data (op_data op)"
    and "apply_operation eq op (root, a) = (pn, root', a')"
  shows "pn = None \<and> all_comparable root'"
proof (cases op)
  case (OpInsert k v)
  obtain head err nd a1 where i: "insert_node root (new_node a k v)
      \<lparr>insert_opt = True, update_opt = False, eq_opt = None\<rparr> (Suc a) = Inr (head, err, nd, a1)"
    using insert_node_total_comparable[OF assms(1),
        of "\<lparr>insert_opt = True, update_opt = False, eq_opt = None\<rparr>" "new_node a k v" "Suc a"]
    by auto
  have "all_comparable head"
    using insert_node_comparable[OF i assms(1)] assms(2) OpInsert by simp
  then show ?thesis using OpInsert i assms
    by (auto simp: Insert_def TableX_mutate_def split: if_splits)
next
  case (OpUpdate k v)
  obtain head err nd a1 where i: "insert_node root (new_node a k v)
      \<lparr>insert_opt = False, update_opt = True, eq_opt = Some eq\<rparr> (Suc a) = Inr (head, err, nd, a1)"
    using insert_node_total_comparable[OF assms(1),
        of "\<lparr>insert_opt = False, update_opt = True, eq_opt = Some eq\<rparr>" "new_node a k v" "Suc a"]
    by auto
  have "all_comparable head"
    using insert_node_comparable[OF i assms(1)] assms(2) OpUpdate by simp
  then show ?thesis using OpUpdate i assms
    by (auto simp: Update_def TableX_mutate_def split: if_splits)
next
  case (OpInsertOrUpdate k v)
  obtain head err nd a1 where i: "insert_node root (new_node a k v)
      \<lparr>insert_opt = True, update_opt = True, eq_opt = Some eq\<rparr> (Suc a) = Inr (head, err, nd, a1)"
    using insert_node_total_comparable[OF assms(1),
        of "\<lparr>insert_opt = True, update_opt = True, eq_opt = Some eq\<rparr>" "new_node a k v" "Suc a"]
    by auto
  have e: "err = None" using insert_upsert_no_error[OF i] .
  have "all_comparable head"
    using insert_node_comparable[OF i assms(1)] assms(2) OpInsertOrUpdate by simp
  then show ?thesis using OpInsertOrUpdate i e assms
    by (auto simp: InsertOrUpdate_def TableX_mutate_def split: if_splits)
next
  case (OpGetOrInsert k v)
  obtain head res a1 where g: "GetOrInsert root k v a = Inr (head, res, a1)"
    using GetOrInsert_total_comparable[OF assms(1), of k v a] by auto
  have "all_comparable head"
    using GetOrInsert_comparable[OF g assms(1)] assms(2) OpGetOrInsert by simp
  then show ?thesis using OpGetOrInsert g assms
    by (auto simp: TableX_mutate_def split: if_splits)
next
  case (OpRemove k)
  obtain head err a1 where d: "del root k \<lparr>flatten = False\<rparr> a = Inr (head, err, a1)"
    using del_total_comparable[OF assms(1), of k "\<lparr>flatten = False\<rparr>" a] by auto
  have "all_comparable head" using del_comparable[OF d assms(1)] .
  then show ?thesis using OpRemove d assms
    by (auto simp: Delete_def TableX_mutate_def split: if_splits)
qed

lemma run_operations_comparable:
  assumes "all_comparable root" "\<forall>op \<in> set ops. comparable_data (op_data op)"
  shows "fst (run_operations eq ops (root, a)) = None"
  using assms
proof (induction ops arbitrary: root a)
  case Nil
  show ?case by simp
next
  case (Cons op ops)
  obtain pn root' a' where ap: "apply_operation eq op (root, a) = (pn, root', a')"
    by (cases "apply_operation eq op (root, a)") auto
  have "pn = None \<and> all_comparable root'"
    using apply_operation_comparable[OF Cons.prems(1) _ ap] Cons.prems(2) by simp
  then show ?case using ap Cons.IH[of root' a'] Cons.prems(2) by simp
qed

lemma run_operations_snoc:
  "run_operations eq (ops @ [op]) st =
     (case run_operations eq ops st of
        (Some pn, st') \<Rightarrow> (Some pn, st')
      | (None, st') \<Rightarrow> apply_operation eq op st')"
proof (induction ops arbitrary: st)
  case Nil
  show ?case by (auto split: prod.splits option.splits)
next
  case (Cons o1 ops)
  then show ?case by (auto split: prod.splits option.splits)
qed

section \<open>Validity after every operation\<close>

text \<open>
  C2. Starting from the empty (nil) trie, after every step of every sequence of
  \<open>Insert\<close>, \<open>Update\<close>, \<open>InsertOrUpdate\<close>, \<open>GetOrInsert\<close> and \<open>Delete\<close> operations
  (keys with lengths within 0..128) the validity check \<open>isValid\<close> holds on the root of
  the table: after an operation that returned, on the root it installed; after an
  operation that panicked in the comparison of two values that cannot be compared with
  \<open>==\<close>, on the root as it was, since a panic installs nothing. When every value of the
  sequence can be compared with \<open>==\<close>, no operation panics: every step has returned.
  The check is the code's own: every inactive node has both children, every cached size
  and height is that of the children, and every child's prefix is longer than its
  parent's.
\<close>

theorem operations_keep_validity:
  assumes "\<forall>op \<in> set ops. length_p (op_key op) \<le> 128"
  shows "\<forall>n \<le> length ops.
           isValid (fst (snd (run_operations eq (take n ops) (NilNode, a0)))) \<and>
           ((\<forall>op \<in> set (take n ops). comparable_data (op_data op)) \<longrightarrow>
              fst (run_operations eq (take n ops) (NilNode, a0)) = None)"
proof (intro allI impI conjI)
  fix n assume "n \<le> length ops"
  have len: "\<forall>op \<in> set (take n ops). length_p (op_key op) \<le> 128"
    using assms by (auto dest: in_set_takeD)
  obtain pn root a where r: "run_operations eq (take n ops) (NilNode, a0) = (pn, root, a)"
    by (cases "run_operations eq (take n ops) (NilNode, a0)") auto
  have "wf_trie root \<and> cache_ok root"
    by (rule run_operations_inv[OF _ _ len r]) simp_all
  then show "isValid (fst (snd (run_operations eq (take n ops) (NilNode, a0))))"
    using r by (simp add: isValid_invariant)
next
  fix n assume "\<forall>op \<in> set (take n ops). comparable_data (op_data op)"
  then show "fst (run_operations eq (take n ops) (NilNode, a0)) = None"
    by (intro run_operations_comparable) simp_all
qed

theorem operations_keep_validity_witness:
  "length_p prefix_A \<le> 128 \<and> length_p prefix_B \<le> 128 \<and>
   run_operations (=)
     (take 2 [OpInsert prefix_A (Some (Comparable (1::nat))),
              OpInsert prefix_B (Some (Comparable 2)), OpRemove prefix_A])
     (NilNode, 0)
     = (None, TrieNode 2 prefix_join None 2 2 False (node_A 0 (Some (Comparable 1)))
                (node_B 1 (Some (Comparable 2))), 3) \<and>
   isValid (TrieNode 2 prefix_join None 2 2 False (node_A 0 (Some (Comparable (1::nat))))
              (node_B 1 (Some (Comparable 2)))) \<and>
   run_operations (=)
     (take 3 [OpInsert prefix_A (Some (Comparable (1::nat))),
              OpInsert prefix_B (Some (Comparable 2)), OpRemove prefix_A])
     (NilNode, 0)
     = (None, node_B 1 (Some (Comparable 2)), 3) \<and>
   isValid (node_B 1 (Some (Comparable (2::nat))))"
proof -
  let ?ops = "[OpInsert prefix_A (Some (Comparable (1::nat))),
               OpInsert prefix_B (Some (Comparable 2)), OpRemove prefix_A]"
  have a: "length_p prefix_A \<le> 128" and b: "length_p prefix_B \<le> 128"
    by (simp_all add: prefix_A_def prefix_B_def mkPrefix_def)
  then have h: "\<forall>op \<in> set ?ops. length_p (op_key op) \<le> 128" by simp
  have e2: "run_operations (=) (take 2 ?ops) (NilNode, 0)
      = (None, TrieNode 2 prefix_join None 2 2 False (node_A 0 (Some (Comparable 1)))
                 (node_B 1 (Some (Comparable 2))), 3)"
    by (simp add: trie_eval mkPrefix_def Insert_def Delete_def prefix_A_def prefix_B_def
          prefix_join_def node_A_def node_B_def TableX_mutate_def)
  have e3: "run_operations (=) (take 3 ?ops) (NilNode, 0)
      = (None, node_B 1 (Some (Comparable 2)), 3)"
    by (simp add: trie_eval mkPrefix_def Insert_def Delete_def prefix_A_def prefix_B_def
          prefix_join_def node_A_def node_B_def TableX_mutate_def)
  note th = operations_keep_validity[OF h, of "(=)" 0, rule_format]
  have v2: "isValid (TrieNode 2 prefix_join None 2 2 False (node_A 0 (Some (Comparable (1::nat))))
              (node_B 1 (Some (Comparable 2))))"
    using th[of 2] unfolding e2 by simp
  have v3: "isValid (node_B 1 (Some (Comparable (2::nat))))"
    using th[of 3] unfolding e3 by simp
  from a b e2 v2 e3 v3 show ?thesis by (intro conjI)
qed

section \<open>GetOrInsert on an existing entry\<close>

lemma iface_eq_refl: "comparable_data d \<Longrightarrow> iface_eq d d = Inr True"
  by (cases d rule: comparable_data.cases) auto

lemma copyMutate_same_child:
  assumes "cache_ok (TrieNode a0 k d s hh act l r)" "ch = 0 \<or> ch = 1"
    and "nc = (if ch = 0 then l else r)" "comparable_data d"
  shows "copyMutate (TrieNode a0 k d s hh act l r) (\<lambda>n. set_child ch nc n) a
           = Inr (TrieNode a0 k d s hh act l r, Suc a)"
proof -
  have "set_child ch nc (set_ptr a (TrieNode a0 k d s hh act l r)) = TrieNode a k d s hh act l r"
    using assms(2,3) by auto
  moreover have "refresh (TrieNode a k d s hh act l r) = TrieNode a k d s hh act l r"
    using assms(1) by simp
  ultimately have "mutate (set_ptr a (TrieNode a0 k d s hh act l r)) (\<lambda>n. set_child ch nc n)
      = TrieNode a k d s hh act l r"
    by (simp add: mutate_refresh)
  then show ?thesis using assms(4)
    by (simp add: copyMutate_def Let_def ptr_eq_refl iface_eq_refl)
qed

text \<open>
  When the values stored on the way to the entry can be compared with \<open>==\<close>,
  \<open>GetOrInsert\<close> on a key that has an active entry returns the root it was called on
  and that entry.
\<close>

lemma GetOrInsert_finds:
  assumes "wf_trie t" "cache_ok t" "all_comparable t" "n \<in> set (entries t)"
    and "length_p (Prefix n) = length_p key"
    and "agree (unat (length_p key)) (ui (addr (Prefix n))) (ui (addr key))"
  shows "\<exists>a'. GetOrInsert t key dat a = Inr (t, n, a')"
  using assms
proof (induction t arbitrary: a)
  case NilNode
  then show ?case by (simp add: entries_simps)
next
  case (TrieNode a0 k d s hh act l r)
  let ?me = "TrieNode a0 k d s hh act l r"
  have k128: "length_p k \<le> 128" and wl: "wf_trie l" and wr: "wf_trie r"
    and ol: "child_ok k 0 l" and orr: "child_ok k 1 r"
    and cl: "cache_ok l" and cr: "cache_ok r"
    and al: "all_comparable l" and ar: "all_comparable r" and cd: "comparable_data d"
    using TrieNode.prems by simp_all
  note len = \<open>length_p (Prefix n) = length_p key\<close>
  note ag = \<open>agree (unat (length_p key)) (ui (addr (Prefix n))) (ui (addr key))\<close>
  note mem = \<open>n \<in> set (entries ?me)\<close>
  have n_nonnil: "n \<noteq> NilNode"
    using mem nodes_nonnil entries_nodes by blast
  have below: "GetOrInsert ?me key dat a = Inr (?me, n, Suc a1)"
    if c: "child_ok k ch n" and ch01: "ch = 0 \<or> ch = 1"
      and rec: "GetOrInsert (if ch = 0 then l else r) key dat a = Inr (if ch = 0 then l else r, n, a1)"
    for ch a1
  proof -
    obtain an kn dn sn hn actn ln rn where n: "n = TrieNode an kn dn sn hn actn ln rn"
      using n_nonnil by (cases n) auto
    have kb: "key_below k ch kn" using c n by simp
    then have lt: "length_p k < length_p key" and lt': "unat (length_p k) < unat (length_p key)"
      using len n by (simp_all add: key_below_def word_less_nat_alt)
    have "agree (unat (length_p k)) (ui (addr kn)) (ui (addr key))"
      using ag n lt' by (auto intro: agree_mono)
    then have agk: "agree (unat (length_p k)) (ui (addr k)) (ui (addr key))"
      using kb by (auto simp: key_below_def intro: agree_trans)
    have "pbit (ui (addr key)) (unat (length_p k)) = pbit (ui (addr kn)) (unat (length_p k))"
      using ag n lt' by (auto dest: agree_pbit)
    then have bit: "pbit (ui (addr key)) (unat (length_p k)) = (ch = 1)"
      using kb by (simp add: key_below_def)
    have cm: "contains k key = (True, False, length_p k, ch)"
      using contains_match[OF k128 agk] lt bit ch01 by auto
    have cpm: "copyMutate ?me (\<lambda>m. set_child ch (if ch = 0 then l else r) m) a1
                 = Inr (?me, Suc a1)"
      using TrieNode.prems(2) ch01 cd by (intro copyMutate_same_child) auto
    show ?thesis using lt cm rec cpm n_nonnil
      by (simp add: deferred_found not_less_iff_gr_or_eq)
  qed
  from mem consider "n = ?me" "act" | "n \<in> set (entries l)" | "n \<in> set (entries r)"
    by (auto simp: entries_simps split: if_splits)
  then show ?case
  proof cases
    case 1
    have "agree (unat (length_p k)) (ui (addr k)) (ui (addr key))"
      using ag len 1 by simp
    from contains_match[OF k128 this] show ?thesis using 1 len
      by (auto simp: deferred_found)
  next
    case 2
    then have c: "child_ok k 0 n" using child_ok_nodes[OF wl ol] entries_nodes by blast
    obtain a1 where "GetOrInsert l key dat a = Inr (l, n, a1)"
      using TrieNode.IH(1)[OF wl cl al 2 len ag] by blast
    then show ?thesis using below[of 0 a1] c by auto
  next
    case 3
    then have c: "child_ok k 1 n" using child_ok_nodes[OF wr orr] entries_nodes by blast
    obtain a1 where "GetOrInsert r key dat a = Inr (r, n, a1)"
      using TrieNode.IH(2)[OF wr cr ar 3 len ag] by blast
    then show ?thesis using below[of 1 a1] c by auto
  qed
qed

text \<open>
  C10. \<open>GetOrInsert\<close> is documented to return the existing value if an exact match is
  found. On the trie that \<open>Insert\<close> of 10.0.0.1/32 and then of 10.0.0.0/24, the latter
  with a value of a type that \<open>==\<close> cannot compare, build from the empty trie, the key
  10.0.0.1/32 has an active entry; \<open>GetOrInsert\<close> on that key finds it and then panics
  in \<open>copyMutate\<close> of the parent, whose struct comparison compares the parent's value
  with itself: it returns neither a head nor the entry.
\<close>

theorem GetOrInsert_existing_entry_panics:
  "run_operations (=)
     [OpInsert prefix_L (Some (Comparable (1::nat))),
      OpInsert prefix_A (Some (Uncomparable 0 2))] (NilNode, 0)
     = (None, TrieNode 1 prefix_A (Some (Uncomparable 0 2)) 2 2 True
                (TrieNode 0 prefix_L (Some (Comparable 1)) 1 1 True NilNode NilNode) NilNode, 2) \<and>
   TrieNode 0 prefix_L (Some (Comparable 1)) 1 1 True NilNode NilNode
     \<in> set (entries (TrieNode 1 prefix_A (Some (Uncomparable 0 2)) 2 2 True
                (TrieNode 0 prefix_L (Some (Comparable (1::nat))) 1 1 True NilNode NilNode)
                NilNode)) \<and>
   GetOrInsert
     (TrieNode 1 prefix_A (Some (Uncomparable 0 2)) 2 2 True
        (TrieNode 0 prefix_L (Some (Comparable (1::nat))) 1 1 True NilNode NilNode) NilNode)
     prefix_L (Some (Comparable 4)) 2
     = Inl (UncomparableType, 3)"
  by (simp add: trie_eval mkPrefix_def Insert_def GetOrInsert_deferred_def prefix_A_def
        prefix_L_def TableX_mutate_def entries_def)

section \<open>The assertion of GetOrInsert\<close>

text \<open>
  C4. \<open>GetOrInsert\<close> and \<open>InsertOrUpdate\<close> are meant never to fail: each panics with
  \<open>this error shouldn't happen\<close> on an error of the inner \<open>insert\<close>, which the code is
  designed around. On the trie that \<open>Insert\<close> of 10.0.0.1/32, of 10.0.0.0/24 with a
  value of a type that \<open>==\<close> cannot compare, and of 10.0.0.0/16 build from the empty
  trie, \<open>GetOrInsert\<close> of the key 10.0.0.1/32 raises that panic, with the error
  \<open>a node with that key already exists\<close> of the inner \<open>insert\<close>: \<open>copyMutate\<close> of the
  /24 node panics in its struct comparison, the deferred function of the call on the
  root runs with \<open>result\<close> still nil and inserts a key that is there. On the same trie
  \<open>InsertOrUpdate\<close> of that key panics in the same comparison.
\<close>

theorem GetOrInsert_raises_insert_error:
  "run_operations (=)
     [OpInsert prefix_L (Some (Comparable (1::nat))),
      OpInsert prefix_A (Some (Uncomparable 0 2)),
      OpInsert prefix_T (Some (Comparable 3))] (NilNode, 0)
     = (None, TrieNode 2 prefix_T (Some (Comparable 3)) 3 3 True
                (TrieNode 1 prefix_A (Some (Uncomparable 0 2)) 2 2 True
                   (TrieNode 0 prefix_L (Some (Comparable 1)) 1 1 True NilNode NilNode) NilNode)
                NilNode, 3) \<and>
   GetOrInsert
     (TrieNode 2 prefix_T (Some (Comparable (3::nat))) 3 3 True
        (TrieNode 1 prefix_A (Some (Uncomparable 0 2)) 2 2 True
           (TrieNode 0 prefix_L (Some (Comparable 1)) 1 1 True NilNode NilNode) NilNode)
        NilNode)
     prefix_L (Some (Comparable 4)) 3
     = Inl (ShouldntHappen ''a node with that key already exists'', 5) \<and>
   InsertOrUpdate
     (TrieNode 2 prefix_T (Some (Comparable (3::nat))) 3 3 True
        (TrieNode 1 prefix_A (Some (Uncomparable 0 2)) 2 2 True
           (TrieNode 0 prefix_L (Some (Comparable 1)) 1 1 True NilNode NilNode) NilNode)
        NilNode)
     prefix_L (Some (Comparable 4)) (Some (=)) 3
     = Inl (UncomparableType, 5)"
  by (simp add: trie_eval mkPrefix_def Insert_def InsertOrUpdate_def GetOrInsert_deferred_def
        prefix_A_def prefix_T_def prefix_L_def TableX_mutate_def)

section \<open>InsertOrUpdate of a value equal to the stored one\<close>

lemma compare_same:
  assumes "length_p a \<le> 128" "length_p b \<le> 128" "length_p a = length_p b"
    "agree (unat (length_p a)) (ui (addr a)) (ui (addr b))"
  shows "\<exists>c ch. compare a b = (compareSame, False, c, ch)"
  using assms(1,2)
proof (cases rule: compare_cases)
  case same
  then show ?thesis by simp
next
  case contains
  then show ?thesis using assms(3) by simp
next
  case is_contained
  then show ?thesis using assms(3) by simp
next
  case (disjoint c)
  then show ?thesis using agree_pbit[OF assms(4), of c] by simp
qed

lemma compare_contains:
  assumes "length_p a \<le> 128" "length_p b \<le> 128" "length_p a < length_p b"
    "agree (unat (length_p a)) (ui (addr a)) (ui (addr b))"
  shows "compare a b = (compareContains, False, length_p a,
           if pbit (ui (addr b)) (unat (length_p a)) then 1 else 0)"
  using assms(1,2)
proof (cases rule: compare_cases)
  case same
  then show ?thesis using assms(3) by simp
next
  case contains
  then show ?thesis by simp
next
  case is_contained
  then show ?thesis using assms(3) by simp
next
  case (disjoint c)
  then show ?thesis using agree_pbit[OF assms(4), of c] by simp
qed

lemma copyMutate_changed:
  assumes "me \<noteq> NilNode" "struct_eq (mutate (set_ptr a me) f) me = Inr False"
  shows "copyMutate me f a = Inr (mutate (set_ptr a me) f, Suc a)"
  using assms by (simp add: copyMutate_def Let_def)

lemma copyMutate_new_child:
  assumes "comparable_data d" "ch = 0 \<or> ch = 1"
    "\<not> ptr_eq nc (if ch = 0 then l else r)"
  shows "copyMutate (TrieNode a0 k d s hh act l r) (\<lambda>n. set_child ch nc n) a
           = Inr (refresh (set_child ch nc (TrieNode a k d s hh act l r)), Suc a)"
proof -
  let ?me = "TrieNode a0 k d s hh act l r"
  have nn: "?me \<noteq> NilNode" by simp
  have m: "mutate (set_ptr a ?me) (\<lambda>n. set_child ch nc n)
      = refresh (set_child ch nc (TrieNode a k d s hh act l r))"
    by (simp add: mutate_refresh)
  have se: "struct_eq (mutate (set_ptr a ?me) (\<lambda>n. set_child ch nc n)) ?me = Inr False"
    unfolding m using assms by (auto simp: iface_eq_refl)
  show ?thesis using copyMutate_changed[OF nn se] unfolding m .
qed

lemma insert_existing:
  assumes "wf_trie t" "all_comparable t" "\<forall>m \<in> set (nodes t). ptr m < p0"
    and "n \<in> set (entries t)"
    and "length_p (Prefix n) = length_p key"
    and "agree (unat (length_p key)) (ui (addr (Prefix n))) (ui (addr key))"
    and "eq (Data n) v" and "p0 \<le> a"
  shows "\<exists>head nd a'. insert_node t (new_node p0 key v)
            \<lparr>insert_opt = True, update_opt = True, eq_opt = Some eq\<rparr> a
              = Inr (head, None, nd, a') \<and>
           head \<noteq> NilNode \<and> p0 \<le> ptr head \<and> a \<le> a' \<and>
           (\<exists>m \<in> set (entries head). Prefix m = key \<and> Data m = Data n \<and> ptr m = p0)"
  using assms(1-4,8)
proof (induction t arbitrary: a)
  case NilNode
  then show ?case by (simp add: entries_simps)
next
  case (TrieNode a0 k d s hh act l r)
  let ?me = "TrieNode a0 k d s hh act l r"
  let ?opts = "\<lparr>insert_opt = True, update_opt = True, eq_opt = Some eq\<rparr>"
  let ?node = "new_node p0 key v"
  have k128: "length_p k \<le> 128" and wl: "wf_trie l" and wr: "wf_trie r"
    and ol: "child_ok k 0 l" and orr: "child_ok k 1 r"
    and al: "all_comparable l" and ar: "all_comparable r" and cd: "comparable_data d"
    and fl: "\<forall>m \<in> set (nodes l). ptr m < p0" and fr: "\<forall>m \<in> set (nodes r). ptr m < p0"
    using TrieNode.prems by simp_all
  note len = \<open>length_p (Prefix n) = length_p key\<close>
  note ag = \<open>agree (unat (length_p key)) (ui (addr (Prefix n))) (ui (addr key))\<close>
  note mem = \<open>n \<in> set (entries ?me)\<close>
  have n_nonnil: "n \<noteq> NilNode"
    using mem nodes_nonnil entries_nodes by blast
  have "wf_trie n" using nodes_wf[OF TrieNode.prems(1)] mem entries_nodes by blast
  then have K128: "length_p key \<le> 128" using len n_nonnil by (cases n) auto
  have below: ?case
    if c: "child_ok k ch n" and ch01: "ch = 0 \<or> ch = 1"
      and rec: "insert_node (if ch = 0 then l else r) ?node ?opts a = Inr (nc, None, nd, a1)"
      and nc: "nc \<noteq> NilNode" "p0 \<le> ptr nc" "a \<le> a1"
        "\<exists>m \<in> set (entries nc). Prefix m = key \<and> Data m = Data n \<and> ptr m = p0"
      and old: "(if ch = 0 then l else r) \<noteq> NilNode"
    for ch nc nd a1
  proof -
    obtain an kn dn sn hn actn ln rn where n: "n = TrieNode an kn dn sn hn actn ln rn"
      using n_nonnil by (cases n) auto
    have kb: "key_below k ch kn" using c n by simp
    then have lt: "length_p k < length_p key" and lt': "unat (length_p k) < unat (length_p key)"
      using len n by (simp_all add: key_below_def word_less_nat_alt)
    have "agree (unat (length_p k)) (ui (addr kn)) (ui (addr key))"
      using ag n lt' by (auto intro: agree_mono)
    then have agk: "agree (unat (length_p k)) (ui (addr k)) (ui (addr key))"
      using kb by (auto simp: key_below_def intro: agree_trans)
    have "pbit (ui (addr key)) (unat (length_p k)) = pbit (ui (addr kn)) (unat (length_p k))"
      using ag n lt' by (auto dest: agree_pbit)
    then have bit: "pbit (ui (addr key)) (unat (length_p k)) = (ch = 1)"
      using kb by (simp add: key_below_def)
    have cm: "compare k (Prefix ?node) = (compareContains, False, length_p k, ch)"
      using compare_contains[OF k128 K128 lt agk] bit ch01 by auto
    have "ptr (if ch = 0 then l else r) < p0"
      using old fl fr by (cases "if ch = 0 then l else r") (auto split: if_splits)
    then have ne: "\<not> ptr_eq nc (if ch = 0 then l else r)"
      using nc(1,2) old by (cases nc; cases "if ch = 0 then l else r") auto
    have cpm: "copyMutate ?me (\<lambda>m. set_child ch nc m) a1
                 = Inr (refresh (set_child ch nc (TrieNode a1 k d s hh act l r)), Suc a1)"
      by (rule copyMutate_new_child[OF cd ch01 ne])
    have ins: "insert_node ?me ?node ?opts a
                 = Inr (refresh (set_child ch nc (TrieNode a1 k d s hh act l r)), None, nd, Suc a1)"
      using cm rec cpm by simp
    show ?thesis unfolding ins using nc ch01 \<open>p0 \<le> a\<close>
      by (auto simp: entries_simps)
  qed
  from mem consider "n = ?me" "act" | "n \<in> set (entries l)" | "n \<in> set (entries r)"
    by (auto simp: entries_simps split: if_splits)
  then show ?case
  proof cases
    case 1
    have "agree (unat (length_p k)) (ui (addr k)) (ui (addr key))"
      using ag len 1 by simp
    from compare_same[OF k128 K128 _ this] len 1
    obtain c ch where cm: "compare k (Prefix ?node) = (compareSame, False, c, ch)" by auto
    have e: "eq d v" using assms(7) 1 by simp
    have ins: "insert_node ?me ?node ?opts a
        = Inr (refresh (TrieNode p0 key d 0 0 True l r), None,
               refresh (TrieNode p0 key d 0 0 True l r), a)"
      using cm 1 e by (simp add: call_eq_def Let_def mutate_refresh new_node_def)
    show ?thesis unfolding ins using 1 by (simp add: entries_simps)
  next
    case 2
    then have c: "child_ok k 0 n" using child_ok_nodes[OF wl ol] entries_nodes by blast
    have nn: "l \<noteq> NilNode" using 2 by (auto simp: entries_simps)
    from TrieNode.IH(1)[OF wl al fl 2 \<open>p0 \<le> a\<close>]
    obtain nc nd a1 where "insert_node l ?node ?opts a = Inr (nc, None, nd, a1)"
      "nc \<noteq> NilNode" "p0 \<le> ptr nc" "a \<le> a1"
      "\<exists>m \<in> set (entries nc). Prefix m = key \<and> Data m = Data n \<and> ptr m = p0"
      by blast
    then show ?thesis using c nn by (intro below[of 0 nc nd a1]) simp_all
  next
    case 3
    then have c: "child_ok k 1 n" using child_ok_nodes[OF wr orr] entries_nodes by blast
    have nn: "r \<noteq> NilNode" using 3 by (auto simp: entries_simps)
    from TrieNode.IH(2)[OF wr ar fr 3 \<open>p0 \<le> a\<close>]
    obtain nc nd a1 where "insert_node r ?node ?opts a = Inr (nc, None, nd, a1)"
      "nc \<noteq> NilNode" "p0 \<le> ptr nc" "a \<le> a1"
      "\<exists>m \<in> set (entries nc). Prefix m = key \<and> Data m = Data n \<and> ptr m = p0"
      by blast
    then show ?thesis using c nn by (intro below[of 1 nc nd a1]) simp_all
  qed
qed


text \<open>
  C6 as stated: re-inserting a value equal to the stored one returns a root
  pointer-equal to the trie's root. It does not: on the one-entry trie with the entry
  10.0.0.0/24 at address 0, next free address 1, \<open>InsertOrUpdate\<close> of the same key and
  value under the comparator \<open>=\<close> returns the node allocated for the call, at address 1.
\<close>

theorem InsertOrUpdate_equal_value_counterexample:
  "node_A 0 (Some (Comparable (1::nat))) \<in> set (entries (node_A 0 (Some (Comparable 1)))) \<and>
   Prefix (node_A 0 (Some (Comparable (1::nat)))) = prefix_A \<and>
   Data (node_A 0 (Some (Comparable (1::nat)))) = Some (Comparable 1) \<and>
   InsertOrUpdate (node_A 0 (Some (Comparable (1::nat)))) prefix_A (Some (Comparable 1))
       (Some (=)) 1
     = Inr (node_A 1 (Some (Comparable 1)), 2) \<and>
   \<not> ptr_eq (node_A 1 (Some (Comparable (1::nat)))) (node_A 0 (Some (Comparable 1)))"
  by (simp add: trie_eval mkPrefix_def InsertOrUpdate_def prefix_A_def node_A_def entries_def)

text \<open>
  C6, amended. Let the trie have the shape invariants, hold values that \<open>==\<close> can
  compare, and have all its nodes at addresses below the next free one, and let it
  contain an active entry with prefix \<open>p\<close> (same length, same first \<open>length\<close> bits as the
  key) and value \<open>v'\<close>, with \<open>eq v' v\<close> true. Then \<open>InsertOrUpdate\<close> of the key and
  \<open>v\<close> returns a root that is not pointer-equal to the trie's root: the node allocated for
  the call replaces the entry's node, and every node above it is copied. What is reused is
  the stored value: the entry for the key in the returned trie is that new node, with the
  key as its prefix and \<open>v'\<close>, not \<open>v\<close>, as its data.
\<close>

theorem InsertOrUpdate_equal_value:
  assumes "wf_trie t" and "all_comparable t" and "\<forall>m \<in> set (nodes t). ptr m < a"
    and "n \<in> set (entries t)" and "prefix_equal_spec (Prefix n) key"
    and "eq (Data n) v"
  shows "\<exists>head a'. InsertOrUpdate t key v (Some eq) a = Inr (head, a') \<and>
           \<not> ptr_eq head t \<and>
           (\<exists>m \<in> set (entries head). Prefix m = key \<and> Data m = Data n \<and> ptr m = a)"
proof -
  have len: "length_p (Prefix n) = length_p key"
    and ag: "agree (unat (length_p key)) (ui (addr (Prefix n))) (ui (addr key))"
    using assms(5) by (auto simp: prefix_equal_spec_def agree_def)
  obtain head nd a' where
    ins: "insert_node t (new_node a key v)
            \<lparr>insert_opt = True, update_opt = True, eq_opt = Some eq\<rparr> (Suc a)
              = Inr (head, None, nd, a')"
    and nn: "head \<noteq> NilNode" and fresh: "a \<le> ptr head"
    and ent: "\<exists>m \<in> set (entries head). Prefix m = key \<and> Data m = Data n \<and> ptr m = a"
    using insert_existing[where eq = eq and v = v and a = "Suc a", OF assms(1-4) len ag assms(6)]
    by auto
  have "t \<noteq> NilNode" using assms(4) by (auto simp: entries_simps)
  then have "ptr t < a" using assms(3) by (cases t) auto
  then have "\<not> ptr_eq head t" using nn fresh \<open>t \<noteq> NilNode\<close> by (cases head; cases t) auto
  then show ?thesis using ins ent by (simp add: InsertOrUpdate_def)
qed

theorem InsertOrUpdate_equal_value_witness:
  "wf_trie (TrieNode 2 prefix_join None 2 2 False (node_A 0 (Some (Comparable (1::nat))))
             (node_B 1 (Some (Comparable 2)))) \<and>
   all_comparable (TrieNode 2 prefix_join None 2 2 False
             (node_A 0 (Some (Comparable (1::nat)))) (node_B 1 (Some (Comparable 2)))) \<and>
   map ptr (nodes (TrieNode 2 prefix_join None 2 2 False
             (node_A 0 (Some (Comparable (1::nat)))) (node_B 1 (Some (Comparable 2)))))
     = [2, 0, 1] \<and>
   node_A 0 (Some (Comparable 1)) \<in> set (entries (TrieNode 2 prefix_join None 2 2 False
             (node_A 0 (Some (Comparable (1::nat)))) (node_B 1 (Some (Comparable 2))))) \<and>
   prefix_equal_spec (Prefix (node_A 0 (Some (Comparable (1::nat)))))
     (mkPrefix (push_bit 96 0x0a0000ff) 24) \<and>
   InsertOrUpdate
     (TrieNode 2 prefix_join None 2 2 False (node_A 0 (Some (Comparable (1::nat))))
        (node_B 1 (Some (Comparable 2))))
     (mkPrefix (push_bit 96 0x0a0000ff) 24) (Some (Comparable 1)) (Some (=)) 3
     = Inr (TrieNode 4 prefix_join None 2 2 False
              (TrieNode 3 (mkPrefix (push_bit 96 0x0a0000ff) 24) (Some (Comparable 1)) 1 1 True
                 NilNode NilNode)
              (node_B 1 (Some (Comparable 2))), 5) \<and>
   \<not> ptr_eq (TrieNode 4 prefix_join None 2 2 False
              (TrieNode 3 (mkPrefix (push_bit 96 0x0a0000ff) 24) (Some (Comparable (1::nat)))
                 1 1 True NilNode NilNode)
              (node_B 1 (Some (Comparable 2))))
        (TrieNode 2 prefix_join None 2 2 False (node_A 0 (Some (Comparable (1::nat))))
              (node_B 1 (Some (Comparable 2))))"
proof -
  let ?t = "TrieNode 2 prefix_join None 2 2 False (node_A 0 (Some (Comparable (1::nat))))
              (node_B 1 (Some (Comparable 2)))"
  let ?key = "mkPrefix (push_bit 96 0x0a0000ff) 24"
  let ?h = "TrieNode 4 prefix_join None 2 2 False
              (TrieNode 3 ?key (Some (Comparable (1::nat))) 1 1 True NilNode NilNode)
              (node_B 1 (Some (Comparable 2)))"
  have w: "wf_trie ?t" and c: "all_comparable ?t"
    and p: "map ptr (nodes ?t) = [2, 0, 1]"
    and e: "node_A 0 (Some (Comparable 1)) \<in> set (entries ?t)"
    and q: "prefix_equal_spec (Prefix (node_A 0 (Some (Comparable (1::nat))))) ?key"
    by (simp_all add: shape_eval intMax_def prefix_equal_spec_def prefix_A_def prefix_B_def
          prefix_join_def node_A_def node_B_def mkPrefix_def)
  have f: "\<forall>m \<in> set (nodes ?t). ptr m < 3"
    by (simp add: node_A_def node_B_def)
  have v: "(=) (Data (node_A 0 (Some (Comparable (1::nat))))) (Some (Comparable 1))"
    by (simp add: node_A_def)
  have g: "InsertOrUpdate ?t ?key (Some (Comparable 1)) (Some (=)) 3 = Inr (?h, 5)"
    by (simp add: trie_eval InsertOrUpdate_def prefix_A_def prefix_B_def prefix_join_def
          node_A_def node_B_def mkPrefix_def)
  have d: "\<not> ptr_eq ?h ?t"
    using InsertOrUpdate_equal_value[where eq = "(=)" and v = "Some (Comparable 1)",
        OF w c f e q v]
    unfolding g by simp
  from w c p e q g d show ?thesis by (intro conjI)
qed

end
